theory Spec2Isabelle
  imports Main "HOL-Library.FSet" "HOL-Library.List_Lexorder" "HOL-Library.AList"
    "HOL-Library.Word"
begin

section \<open>Python values used by the gazette spider and its pipelines\<close>

text \<open>
  A Python \<open>str\<close> is a sequence of Unicode code points, so it is a list of naturals here;
  a Python \<open>bytes\<close> value is a list of 8-bit characters (\<open>string\<close>).
  \<open>u\<close> turns an ASCII or Latin-1 literal into a \<open>str\<close>.
\<close>

type_synonym str = "nat list"

definition u :: "string \<Rightarrow> str" where
  "u s = map of_char s"

text \<open>The exceptions the modelled code can raise.\<close>

datatype error = DropItem str | TypeError | KeyError | ValueError | AttributeError

subsection \<open>datetime.date\<close>

record date =
  date_year :: int
  date_month :: int
  date_day :: int

definition is_leap :: "int \<Rightarrow> bool" where
  "is_leap y = (y mod 4 = 0 \<and> (y mod 100 \<noteq> 0 \<or> y mod 400 = 0))"

definition days_in_month :: "int \<Rightarrow> int \<Rightarrow> int" where
  "days_in_month y m =
     (if m = 2 then (if is_leap y then 29 else 28)
      else if m = 4 \<or> m = 6 \<or> m = 9 \<or> m = 11 then 30 else 31)"

text \<open>\<open>date(y, m, d)\<close>: the constructor raises ValueError outside the calendar.\<close>

definition mk_date :: "int \<Rightarrow> int \<Rightarrow> int \<Rightarrow> error + date" where
  "mk_date y m d =
     (if 1 \<le> y \<and> y \<le> 9999 \<and> 1 \<le> m \<and> m \<le> 12 \<and> 1 \<le> d \<and> d \<le> days_in_month y m
      then Inr \<lparr>date_year = y, date_month = m, date_day = d\<rparr>
      else Inl ValueError)"

text \<open>Dates compare as (year, month, day) triples.\<close>

definition date_less :: "date \<Rightarrow> date \<Rightarrow> bool" where
  "date_less a b =
     (date_year a < date_year b \<or>
      (date_year a = date_year b \<and> (date_month a < date_month b \<or> (date_month a = date_month b \<and> date_day a < date_day b))))"

definition date_le :: "date \<Rightarrow> date \<Rightarrow> bool" where
  "date_le a b = (date_less a b \<or> a = b)"

subsection \<open>Decimal rendering\<close>

definition digit_char :: "nat \<Rightarrow> nat" where
  "digit_char n = 48 + n mod 10"

text \<open>\<open>zpad w n\<close>: the decimal digits of \<open>n\<close>, zero-padded on the left to width \<open>w\<close>
  (the low \<open>w\<close> digits; the callers pass numbers that fit).\<close>

fun zpad :: "nat \<Rightarrow> nat \<Rightarrow> str" where
  "zpad 0 n = []"
| "zpad (Suc w) n = zpad w (n div 10) @ [digit_char n]"

text \<open>
  \<open>d.strftime("%Y-%m-%d")\<close> and \<open>d.isoformat()\<close>: four digits of year, two of month, two
  of day. (For years below 1000 the C library decides whether \<open>%Y\<close> pads; the documented
  padded form is the one modelled.)
\<close>

definition strftime_Ymd :: "date \<Rightarrow> str" where
  "strftime_Ymd d =
     zpad 4 (nat (date_year d)) @ u ''-'' @ zpad 2 (nat (date_month d)) @ u ''-'' @ zpad 2 (nat (date_day d))"

section \<open>Items and spiders\<close>

text \<open>
  One entry of the item's \<open>files\<close> list, as the files pipeline of the framework leaves it:
  a dict with the keys \<open>url\<close>, \<open>path\<close>, \<open>checksum\<close> and \<open>status\<close>.
\<close>

record file_info =
  fi_url :: str
  fi_path :: str
  fi_checksum :: str
  fi_status :: str

text \<open>
  The \<open>Gazette\<close> item. Every field of an item may be unset: \<open>item.get(f)\<close> is then
  \<open>None\<close> and \<open>item[f]\<close> raises KeyError. \<open>scraped_at\<close> is an opaque timestamp.
\<close>

record Gazette =
  item_date :: "date option"
  item_edition_number :: "str option"
  item_is_extra_edition :: "bool option"
  item_power :: "str option"
  item_file_urls :: "str list option"
  item_source_text :: "str option"
  item_scraped_at :: "nat option"
  item_territory_id :: "str option"
  item_files :: "file_info list option"

text \<open>
  What the pipelines read of a spider: \<open>start_date\<close> and \<open>end_date\<close>, \<open>None\<close> when the
  spider object has no such attribute.
\<close>

record spider =
  start_date :: "date option"
  end_date :: "date option"

subsection \<open>Log records\<close>

text \<open>
  One constructor per logging call of the source, carrying the values the message
  interpolates; the level is in the name (\<open>logger.info\<close>, \<open>logger.warning\<close>,
  \<open>logger.error\<close>).
\<close>

datatype log_entry =
    InfoUnableToExtract str
  | WarningWrongYear date int
  | InfoNotPdf date str bool str
  | InfoSameUrl str date
  | ErrorMoreThanOneUrl str date
  | WarningDbFailure "date option" str
  | InfoNoFilename str
  | InfoNoContentDisposition str

section \<open>GazetteDateFilteringPipeline\<close>

text \<open>
  \<open>process_item\<close>: with a \<open>start_date\<close> attribute, the item is dropped when
  \<open>spider.start_date > item.get("date")\<close>; comparing a date with \<open>None\<close> raises TypeError.
\<close>

definition date_filtering_process_item :: "Gazette \<Rightarrow> spider \<Rightarrow> error + Gazette" where
  "date_filtering_process_item item sp =
     (case start_date sp of
        None \<Rightarrow> Inr item
      | Some sd \<Rightarrow>
          (case item_date item of
             None \<Rightarrow> Inl TypeError
           | Some d \<Rightarrow>
               if date_less d sd
               then Inl (DropItem (u ''Droping all items before '' @ strftime_Ymd sd))
               else Inr item))"

section \<open>SQLDatabasePipeline\<close>

text \<open>
  The row built by \<open>Gazette(**gazette_item)\<close>: the seven item fields read with
  \<open>item.get\<close> and the three fields of the file entry.
\<close>

record Row =
  row_source_text :: "str option"
  row_date :: "date option"
  row_edition_number :: "str option"
  row_is_extra_edition :: "bool option"
  row_power :: "str option"
  row_scraped_at :: "nat option"
  row_territory_id :: "str option"
  row_file_path :: str
  row_file_url :: str
  row_file_checksum :: str

record SQLDatabasePipeline =
  database_url :: "str option"

definition gazette_row :: "Gazette \<Rightarrow> file_info \<Rightarrow> Row" where
  "gazette_row item file_info =
     \<lparr>row_source_text = item_source_text item, row_date = item_date item,
      row_edition_number = item_edition_number item, row_is_extra_edition = item_is_extra_edition item,
      row_power = item_power item, row_scraped_at = item_scraped_at item,
      row_territory_id = item_territory_id item,
      row_file_path = fi_path file_info, row_file_url = fi_url file_info,
      row_file_checksum = fi_checksum file_info\<rparr>"

text \<open>
  The sink's state is the table of committed rows and the spider's log.
  \<open>commit_fails db row\<close> is the database's verdict on \<open>session.commit()\<close> after
  \<open>session.add(row)\<close>: true when it raises SQLAlchemyError. On failure the warning is
  logged and \<open>session.rollback()\<close> leaves the table as it was.
\<close>

type_synonym sink_state = "Row list \<times> log_entry list"

definition persist_file ::
  "(Row list \<Rightarrow> Row \<Rightarrow> bool) \<Rightarrow> Gazette \<Rightarrow> sink_state \<Rightarrow> file_info \<Rightarrow> sink_state"
where
  "persist_file commit_fails item st file_info =
     (let already_downloaded = (fi_status file_info = u ''uptodate'') in
      if already_downloaded then st
      else
        let gazette = gazette_row item file_info in
        if commit_fails (fst st) gazette
        then (fst st, snd st @ [WarningDbFailure (item_date item) (fi_checksum file_info)])
        else (fst st @ [gazette], snd st))"

definition sql_process_item ::
  "SQLDatabasePipeline \<Rightarrow> (Row list \<Rightarrow> Row \<Rightarrow> bool) \<Rightarrow> Gazette \<Rightarrow> sink_state
     \<Rightarrow> Gazette \<times> sink_state"
where
  "sql_process_item self commit_fails item st =
     (case database_url self of
        None \<Rightarrow> (item, st)
      | Some _ \<Rightarrow>
          (item, foldl (persist_file commit_fails item) st
                   (case item_files item of None \<Rightarrow> [] | Some fs \<Rightarrow> fs)))"

section \<open>Strings and regular expressions\<close>

subsection \<open>String methods\<close>

text \<open>\<open>c.isspace()\<close>, which is also the class \<open>\s\<close> of a str pattern.\<close>

definition py_isspace :: "nat \<Rightarrow> bool" where
  "py_isspace c =
     ((9 \<le> c \<and> c \<le> 13) \<or> (28 \<le> c \<and> c \<le> 32) \<or> c = 133 \<or> c = 160 \<or> c = 5760
      \<or> (8192 \<le> c \<and> c \<le> 8202) \<or> c = 8232 \<or> c = 8233 \<or> c = 8239 \<or> c = 8287
      \<or> c = 12288)"

text \<open>\<open>s.strip()\<close>.\<close>

definition strip :: "str \<Rightarrow> str" where
  "strip s = rev (dropWhile py_isspace (rev (dropWhile py_isspace s)))"

text \<open>
  \<open>s.replace(old, new)\<close>: every occurrence of \<open>old\<close>, found from left to right without
  overlap. The scan is over the suffixes of \<open>s\<close>, skipping \<open>length old - 1\<close> characters
  after a replacement. (With an empty \<open>old\<close> Python inserts \<open>new\<close> around every
  character; the spider never passes one, and the model then leaves \<open>s\<close> as it is.)
\<close>

fun replace_from :: "str \<Rightarrow> str \<Rightarrow> nat \<Rightarrow> str \<Rightarrow> str" where
  "replace_from old new skip [] = []"
| "replace_from old new skip (c # s) =
     (if 0 < skip then replace_from old new (skip - 1) s
      else if take (length old) (c # s) = old
      then new @ replace_from old new (length old - 1) s
      else c # replace_from old new 0 s)"

definition replace :: "str \<Rightarrow> str \<Rightarrow> str \<Rightarrow> str" where
  "replace old new s = (if old = [] then s else replace_from old new 0 s)"

text \<open>
  \<open>int(s)\<close> on a string of ASCII digits, as the groups \<open>[0-9]{4}\<close> and \<open>[0-9]{2}\<close>
  deliver it; anything else is ValueError here. (Python's \<open>int\<close> takes a few more
  spellings, none of which a digit group can produce.)
\<close>

definition is_digit :: "nat \<Rightarrow> bool" where
  "is_digit c = (48 \<le> c \<and> c \<le> 57)"

definition py_int :: "str \<Rightarrow> error + int" where
  "py_int s =
     (if s \<noteq> [] \<and> list_all is_digit s
      then Inr (foldl (\<lambda>n c. 10 * n + (int c - 48)) 0 s)
      else Inl ValueError)"

subsection \<open>A backtracking matcher for sequences of repeated character classes\<close>

text \<open>
  The three patterns of the source are sequences of items, each a character class with a
  greedy repetition: a class, the least count and the greatest count (\<open>None\<close> for no
  bound). A literal is a class repeated once. The matcher works as the \<open>re\<close> module does on
  such a pattern: an item first takes as many characters as it can, the rest of the pattern
  is tried, and on failure the item gives one character back, down to its least count. The
  result is the text each item matched, from which the groups are read.
\<close>

type_synonym 'c item = "('c \<Rightarrow> bool) \<times> nat \<times> nat option"

text \<open>The greatest count an item can take at the head of \<open>s\<close>.\<close>

definition greatest :: "'c item \<Rightarrow> 'c list \<Rightarrow> nat" where
  "greatest it s =
     (case it of (cls, least, most) \<Rightarrow>
        let run = length (takeWhile cls s)
        in (case most of None \<Rightarrow> run | Some m \<Rightarrow> min m run))"

text \<open>
  \<open>match_items items s\<close> matches the items at the head of \<open>s\<close>;
  \<open>give_back it items s k\<close> lets the item \<open>it\<close> take \<open>k\<close> characters, tries the rest,
  and on failure retries with \<open>k - 1\<close> while the least count allows.
\<close>

function match_items :: "'c item list \<Rightarrow> 'c list \<Rightarrow> 'c list list option"
  and give_back :: "'c item \<Rightarrow> 'c item list \<Rightarrow> 'c list \<Rightarrow> nat \<Rightarrow> 'c list list option"
where
  "match_items [] s = Some []"
| "match_items (it # items) s = give_back it items s (greatest it s)"
| "give_back it items s k =
     (if k < fst (snd it) then None
      else
        (case match_items items (drop k s) of
           Some segments \<Rightarrow> Some (take k s # segments)
         | None \<Rightarrow> if k = 0 then None else give_back it items s (k - 1)))"
  by pat_completeness auto
termination
  by (relation "inv_image (less_than <*lex*> less_than)
        (\<lambda>x. case x of Inl (items, s) \<Rightarrow> (2 * length items, 0)
                       | Inr (it, items, s, k) \<Rightarrow> (2 * length items + 1, k))")
     auto

declare give_back.simps [simp del]

text \<open>
  \<open>pattern.search(s)\<close> for a pattern with alternatives (one alternative when the pattern
  has no \<open>|\<close>): the leftmost start at which an alternative matches, the alternatives in
  order; the starts are the suffixes of \<open>s\<close>, the empty one included.
\<close>

fun first_alternative :: "'c item list list \<Rightarrow> 'c list \<Rightarrow> 'c list list option" where
  "first_alternative [] s = None"
| "first_alternative (items # alternatives) s =
     (case match_items items s of
        Some segments \<Rightarrow> Some segments
      | None \<Rightarrow> first_alternative alternatives s)"

fun regex_search :: "'c item list list \<Rightarrow> 'c list \<Rightarrow> 'c list list option" where
  "regex_search alternatives [] = first_alternative alternatives []"
| "regex_search alternatives (c # s) =
     (case first_alternative alternatives (c # s) of
        Some segments \<Rightarrow> Some segments
      | None \<Rightarrow> regex_search alternatives s)"

text \<open>A segment an item can take.\<close>

definition seg_ok :: "'c item \<Rightarrow> 'c list \<Rightarrow> bool" where
  "seg_ok it seg =
     (case it of (cls, least, most) \<Rightarrow>
        (\<forall>c \<in> set seg. cls c) \<and> least \<le> length seg
        \<and> (case most of None \<Rightarrow> True | Some m \<Rightarrow> length seg \<le> m))"

text \<open>The texts a sequence of items matches from end to end.\<close>

definition spans :: "'c item list \<Rightarrow> 'c list \<Rightarrow> bool" where
  "spans items mid = (\<exists>segments. list_all2 seg_ok items segments \<and> concat segments = mid)"

text \<open>Items: one character of a class, and the repetitions.\<close>

definition once :: "('c \<Rightarrow> bool) \<Rightarrow> 'c item" where
  "once cls = (cls, 1, Some 1)"

definition optional :: "('c \<Rightarrow> bool) \<Rightarrow> 'c item" where
  "optional cls = (cls, 0, Some 1)"

definition star :: "('c \<Rightarrow> bool) \<Rightarrow> 'c item" where
  "star cls = (cls, 0, None)"

definition plus :: "('c \<Rightarrow> bool) \<Rightarrow> 'c item" where
  "plus cls = (cls, 1, None)"

definition exactly :: "nat \<Rightarrow> ('c \<Rightarrow> bool) \<Rightarrow> 'c item" where
  "exactly n cls = (cls, n, Some n)"

text \<open>
  A literal letter under \<open>re.IGNORECASE\<close> in a str pattern matches the code points whose
  lower case is that of the letter, and the few more that the module treats as the same
  letter: dotted capital and dotless small i, long s, the Kelvin and Angstrom signs. The
  table covers the letters of ASCII and of Latin-1, which is where the letters of the
  patterns are; any other code point matches itself.
\<close>

definition ignorecase_variants :: "nat \<Rightarrow> nat list" where
  "ignorecase_variants p =
     (if p = 105 \<or> p = 73 then [105, 73, 304, 305]
      else if p = 115 \<or> p = 83 then [115, 83, 383]
      else if p = 107 \<or> p = 75 then [107, 75, 8490]
      else if 97 \<le> p \<and> p \<le> 122 then [p, p - 32]
      else if 65 \<le> p \<and> p \<le> 90 then [p + 32, p]
      else if p = 229 \<or> p = 197 then [229, 197, 8491]
      else if 224 \<le> p \<and> p \<le> 254 \<and> p \<noteq> 247 then [p, p - 32]
      else if 192 \<le> p \<and> p \<le> 222 \<and> p \<noteq> 215 then [p + 32, p]
      else [p])"

definition ignorecase :: "nat \<Rightarrow> nat \<Rightarrow> bool" where
  "ignorecase p c = (c \<in> set (ignorecase_variants p))"

text \<open>A word of the pattern, letter by letter, ignoring case.\<close>

definition word_ignorecase :: "str \<Rightarrow> nat item list" where
  "word_ignorecase w = map (\<lambda>p. once (ignorecase p)) w"

definition any_but_newline :: "nat \<Rightarrow> bool" where
  "any_but_newline c = (c \<noteq> 10)"

subsection \<open>The patterns of the spider\<close>

text \<open>
  \<open>POST_2013_SPLIT_GAZETTE_TEXT_PATTERN\<close>:
  \<^verbatim>\<open>Edi[c,][a~]o[^0-9]+([0-9]+)\s*[-[en dash]]?\s*([^0-9]*)\s+[--]\s+([0-9]{4}).([0-9]{2}).([0-9]{2})\<close>
  with IGNORECASE, where \<open>[c,]\<close> stands for the c with cedilla (231) and \<open>[a~]\<close> for the a
  with tilde (227). The word is six items; the groups are the items 7, 11, 15, 17 and 19.
  The first dash class is the hyphen (45) or the en dash (8211), \<open>[--]\<close> is the hyphen
  alone.
\<close>

definition POST_2013_SPLIT_GAZETTE_TEXT_PATTERN :: "nat item list" where
  "POST_2013_SPLIT_GAZETTE_TEXT_PATTERN =
     word_ignorecase (u ''Edi'' @ [231, 227] @ u ''o'')
     @ [plus (\<lambda>c. \<not> is_digit c),
        plus is_digit,
        star py_isspace,
        optional (\<lambda>c. c = 45 \<or> c = 8211),
        star py_isspace,
        star (\<lambda>c. \<not> is_digit c),
        plus py_isspace,
        once (\<lambda>c. c = 45),
        plus py_isspace,
        exactly 4 is_digit,
        once any_but_newline,
        exactly 2 is_digit,
        once any_but_newline,
        exactly 2 is_digit]"

text \<open>The match object, reduced to its five groups.\<close>

definition split_gazette_text_search :: "str \<Rightarrow> (str \<times> str \<times> str \<times> str \<times> str) option" where
  "split_gazette_text_search node_text =
     (case regex_search [POST_2013_SPLIT_GAZETTE_TEXT_PATTERN] node_text of
        None \<Rightarrow> None
      | Some segments \<Rightarrow>
          Some (segments ! 7, segments ! 11, segments ! 15, segments ! 17, segments ! 19))"

text \<open>
  \<open>IS_EXTRA_EDITION_PATTERN\<close>: \<^verbatim>\<open>(sum?ple?mento|extraordin[a']ria)\<close> with IGNORECASE, where
  \<open>[a']\<close> stands for the a with acute accent (225); only
  whether it is found is used.
\<close>

definition IS_EXTRA_EDITION_PATTERN :: "nat item list list" where
  "IS_EXTRA_EDITION_PATTERN =
     [word_ignorecase (u ''su'') @ [optional (ignorecase 109)] @ word_ignorecase (u ''pl'')
        @ [optional (ignorecase 101)] @ word_ignorecase (u ''mento''),
      word_ignorecase (u ''extraordin'' @ [225] @ u ''ria'')]"

definition is_extra_edition_search :: "str \<Rightarrow> bool" where
  "is_extra_edition_search s = (regex_search IS_EXTRA_EDITION_PATTERN s \<noteq> None)"

text \<open>
  The words the extra-edition pattern stands for: the word for supplement, its two known
  misspellings (an extra m, a missing e), both at once, and the word for extraordinary.
\<close>

definition extra_edition_words :: "str list" where
  "extra_edition_words =
     [u ''suplemento'', u ''sumplemento'', u ''suplmento'', u ''sumplmento'',
      u ''extraordin'' @ [225] @ u ''ria'']"

text \<open>\<open>s\<close> has a part that is the word \<open>w\<close> letter by letter, ignoring case.\<close>

definition contains_ignorecase :: "str \<Rightarrow> str \<Rightarrow> bool" where
  "contains_ignorecase w s =
     (\<exists>pre mid post. s = pre @ mid @ post \<and> list_all2 ignorecase w mid)"

section \<open>The page-scoped aggregation of the ro_ji_parana spider\<close>

text \<open>\<open>s.endswith(suffix)\<close>.\<close>

definition endswith :: "str \<Rightarrow> str \<Rightarrow> bool" where
  "endswith s suffix =
     (length suffix \<le> length s \<and> drop (length s - length suffix) s = suffix)"

text \<open>
  \<open>GazettesDataPerPage\<close>: a dict from (gazette_date, edition_number, is_extra_edition) to
  a dict from is_extra_edition_text to a set of URLs. A Python dict keeps its keys in
  insertion order, so it is an association list: \<open>map_of\<close> reads a key,
  \<open>AList.update\<close> assigns one (in place when the key exists, at the end otherwise).
\<close>

type_synonym gazette_key = "date \<times> str \<times> bool"
type_synonym by_text = "(str \<times> str fset) list"
type_synonym GazettesDataPerPage = "(gazette_key \<times> by_text) list"

text \<open>
  \<open>_validate_uniqueness\<close>. The two \<open>setdefault\<close> calls read the inner dict and the URL
  set, creating them empty when the key is absent; the page is returned as they leave it.
\<close>

definition validate_uniqueness ::
  "GazettesDataPerPage \<times> log_entry list \<Rightarrow> date \<Rightarrow> str \<Rightarrow> bool \<Rightarrow> str \<Rightarrow> str
     \<Rightarrow> GazettesDataPerPage \<times> log_entry list"
where
  "validate_uniqueness st gazette_date edition_number is_extra_edition is_extra_edition_text url =
     (let current_gazettes_data_per_page = fst st; log = snd st in
      if gazette_date = \<lparr>date_year = 2014, date_month = 8, date_day = 28\<rparr> \<and> \<not> endswith url (u ''.pdf'')
      then (current_gazettes_data_per_page,
            log @ [InfoNotPdf gazette_date edition_number is_extra_edition url])
      else
        let current_gazette_key = (gazette_date, edition_number, is_extra_edition);
            by_is_extra_edition_text =
              (case map_of current_gazettes_data_per_page current_gazette_key of
                 None \<Rightarrow> [] | Some d \<Rightarrow> d);
            current_gazette_url_set =
              (case map_of by_is_extra_edition_text is_extra_edition_text of
                 None \<Rightarrow> {||} | Some s \<Rightarrow> s)
        in
          if url |\<in>| current_gazette_url_set
          then (AList.update current_gazette_key
                  (AList.update is_extra_edition_text current_gazette_url_set
                     by_is_extra_edition_text)
                  current_gazettes_data_per_page,
                log @ [InfoSameUrl edition_number gazette_date])
          else (AList.update current_gazette_key
                  (AList.update is_extra_edition_text (finsert url current_gazette_url_set)
                     by_is_extra_edition_text)
                  current_gazettes_data_per_page,
                log))"

text \<open>
  The inner loop of \<open>_yield_gazettes\<close> over \<open>sorted(by_is_extra_edition_text)\<close>. Its
  state is \<open>yield_gazette\<close>, \<open>current_gazette_urls\<close> and the log. \<open>url_set.pop()\<close> is
  reached only with at most one member: it returns that member, and raises KeyError on the
  empty set.
\<close>

fun collect_urls ::
  "str \<Rightarrow> date \<Rightarrow> by_text \<Rightarrow> str list \<Rightarrow> bool \<times> str list \<times> log_entry list
     \<Rightarrow> error option \<times> bool \<times> str list \<times> log_entry list"
where
  "collect_urls edition_number gazette_date by_is_extra_edition_text [] st = (None, st)"
| "collect_urls edition_number gazette_date by_is_extra_edition_text (key # keys)
       (yield_gazette, current_gazette_urls, log) =
     (case map_of by_is_extra_edition_text key of
        None \<Rightarrow> (Some KeyError, yield_gazette, current_gazette_urls, log)
      | Some url_set \<Rightarrow>
          if fcard url_set > 1
          then collect_urls edition_number gazette_date by_is_extra_edition_text keys
                 (False, current_gazette_urls,
                  log @ [ErrorMoreThanOneUrl edition_number gazette_date])
          else if url_set = {||}
          then (Some KeyError, yield_gazette, current_gazette_urls, log)
          else collect_urls edition_number gazette_date by_is_extra_edition_text keys
                 (yield_gazette, current_gazette_urls @ [fthe_elem url_set], log))"

text \<open>
  \<open>_yield_gazettes\<close> is a generator: the result is the list of items yielded, the log, and
  the exception that ended it, if any (the items yielded before it stay yielded).
\<close>

fun yield_gazettes ::
  "GazettesDataPerPage \<Rightarrow> log_entry list \<Rightarrow> Gazette list \<times> log_entry list \<times> error option"
where
  "yield_gazettes [] log = ([], log, None)"
| "yield_gazettes (((gazette_date, edition_number, is_extra_edition), by_is_extra_edition_text)
                     # rest) log =
     (case collect_urls edition_number gazette_date by_is_extra_edition_text
             (sort (map fst by_is_extra_edition_text)) (True, [], log) of
        (Some e, _, _, log') \<Rightarrow> ([], log', Some e)
      | (None, yield_gazette, current_gazette_urls, log') \<Rightarrow>
          if \<not> yield_gazette then yield_gazettes rest log'
          else
            (case yield_gazettes rest log' of
               (gazettes, log'', raised) \<Rightarrow>
                 (\<lparr>item_date = Some gazette_date, item_edition_number = Some edition_number,
                   item_is_extra_edition = Some is_extra_edition,
                   item_power = Some (u ''executive''),
                   item_file_urls = Some current_gazette_urls, item_source_text = None,
                   item_scraped_at = None, item_territory_id = None, item_files = None\<rparr> # gazettes,
                  log'', raised)))"

subsection \<open>A page's aggregation as a whole\<close>

text \<open>
  An entry is the argument tuple of one \<open>_validate_uniqueness\<close> call:
  (gazette_date, edition_number, is_extra_edition, is_extra_edition_text, url).
  \<open>aggregate\<close> is the sequence of calls a page makes, from the empty dict.
\<close>

type_synonym entry = "date \<times> str \<times> bool \<times> str \<times> str"

definition register ::
  "GazettesDataPerPage \<times> log_entry list \<Rightarrow> entry \<Rightarrow> GazettesDataPerPage \<times> log_entry list"
where
  "register st e =
     (case e of (gazette_date, edition_number, is_extra_edition, is_extra_edition_text, url) \<Rightarrow>
        validate_uniqueness st gazette_date edition_number is_extra_edition
          is_extra_edition_text url)"

definition aggregate :: "entry list \<Rightarrow> GazettesDataPerPage \<times> log_entry list" where
  "aggregate es = foldl register ([], []) es"

text \<open>The entries that the literal 2014-08-28 exception does not turn away.\<close>

definition accepted :: "entry \<Rightarrow> bool" where
  "accepted e =
     (case e of (gazette_date, edition_number, is_extra_edition, is_extra_edition_text, url) \<Rightarrow>
        \<not> (gazette_date = \<lparr>date_year = 2014, date_month = 8, date_day = 28\<rparr>
           \<and> \<not> endswith url (u ''.pdf'')))"

text \<open>The URL set stored under a key and a text, empty when either is absent.\<close>

definition url_set_of :: "GazettesDataPerPage \<Rightarrow> gazette_key \<Rightarrow> str \<Rightarrow> str fset" where
  "url_set_of page k pk =
     (case map_of page k of
        None \<Rightarrow> {||}
      | Some by_is_extra_edition_text \<Rightarrow>
          (case map_of by_is_extra_edition_text pk of None \<Rightarrow> {||} | Some url_set \<Rightarrow> url_set))"

text \<open>
  What every page built by \<open>_validate_uniqueness\<close> satisfies: keys occur once (it is a
  dict), no inner dict is empty and no URL set is empty.
\<close>

definition by_text_ok :: "by_text \<Rightarrow> bool" where
  "by_text_ok bt = (bt \<noteq> [] \<and> distinct (map fst bt) \<and> list_all (\<lambda>p. snd p \<noteq> {||}) bt)"

definition page_ok :: "GazettesDataPerPage \<Rightarrow> bool" where
  "page_ok page = (distinct (map fst page) \<and> list_all (\<lambda>p. by_text_ok (snd p)) page)"

text \<open>The key of an emitted item.\<close>

definition gazette_key_of :: "Gazette \<Rightarrow> date option \<times> str option \<times> bool option" where
  "gazette_key_of g = (item_date g, item_edition_number g, item_is_extra_edition g)"

definition some_key :: "gazette_key \<Rightarrow> date option \<times> str option \<times> bool option" where
  "some_key k = (case k of (d, en, ie) \<Rightarrow> (Some d, Some en, Some ie))"


text \<open>No text of an inner dict holds more than one URL.\<close>

definition no_conflict :: "by_text \<Rightarrow> bool" where
  "no_conflict bt = list_all (\<lambda>p. fcard (snd p) \<le> 1) bt"

text \<open>The item \<open>_yield_gazettes\<close> builds for a key whose texts hold one URL each.\<close>

definition gazette_of :: "gazette_key \<times> by_text \<Rightarrow> Gazette" where
  "gazette_of p =
     (case p of ((gazette_date, edition_number, is_extra_edition), bt) \<Rightarrow>
        \<lparr>item_date = Some gazette_date, item_edition_number = Some edition_number,
         item_is_extra_edition = Some is_extra_edition,
         item_power = Some (u ''executive''),
         item_file_urls =
           Some (map (\<lambda>key. fthe_elem (the (map_of bt key))) (sort (map fst bt))),
         item_source_text = None, item_scraped_at = None, item_territory_id = None,
         item_files = None\<rparr>)"

section \<open>The listing page of the ro_ji_parana spider\<close>

text \<open>
  One node selected by the XPath expression of \<open>parse_year_post_2013_split\<close>: its first
  text node (\<open>./text()\<close>) and its \<open>href\<close> attribute, both of which the expression
  requires to exist.
\<close>

record gazette_node =
  node_text :: str
  node_href :: str

text \<open>
  The predicate of the XPath expression on an \<open>a\<close> element that has an \<open>href\<close>:
  \<open>contains(text(), ...)\<close> looks at the element's first text node for the word and for
  the queried year between a space and a hyphen. \<open>str_int\<close> is the decimal form the
  f-string gives the year.
\<close>

fun contains :: "str \<Rightarrow> str \<Rightarrow> bool" where
  "contains [] needle = (needle = [])"
| "contains (c # cs) needle = (take (length needle) (c # cs) = needle \<or> contains cs needle)"

fun decimal :: "nat \<Rightarrow> str" where
  "decimal n = (if n < 10 then [digit_char n] else decimal (n div 10) @ [digit_char n])"

definition str_int :: "int \<Rightarrow> str" where
  "str_int i = (if i < 0 then u ''-'' @ decimal (nat (- i)) else decimal (nat i))"

definition xpath_selects :: "int \<Rightarrow> gazette_node \<Rightarrow> bool" where
  "xpath_selects year gazette_node =
     (contains (node_text gazette_node) (u ''Edi'' @ [231, 227] @ u ''o'')
      \<and> contains (node_text gazette_node) (u '' '' @ str_int year @ u ''-''))"

text \<open>
  The body of the loop over the nodes. \<open>self_start_date\<close> and \<open>self_end_date\<close> are the
  spider's crawl bounds and \<open>urljoin\<close> is \<open>response.urljoin\<close>. The state is the page's
  dict and the log; \<open>continue\<close> returns it, and the ValueError of \<open>date(...)\<close> ends the
  whole call.
\<close>

definition parse_node ::
  "date \<Rightarrow> date \<Rightarrow> (str \<Rightarrow> str) \<Rightarrow> int \<Rightarrow> GazettesDataPerPage \<times> log_entry list
     \<Rightarrow> gazette_node \<Rightarrow> error + GazettesDataPerPage \<times> log_entry list"
where
  "parse_node self_start_date self_end_date urljoin year st gazette_node =
     (let node_text = strip (node_text gazette_node) in
      case split_gazette_text_search node_text of
        None \<Rightarrow> Inr (fst st, snd st @ [InfoUnableToExtract node_text])
      | Some (group1, group2, group3, group4, group5) \<Rightarrow>
          let edition_number = group1;
              is_extra_edition_text = strip group2
          in
            (case py_int group3 of Inl e \<Rightarrow> Inl e | Inr year_value \<Rightarrow>
             case py_int group4 of Inl e \<Rightarrow> Inl e | Inr month_value \<Rightarrow>
             case py_int group5 of Inl e \<Rightarrow> Inl e | Inr day_value \<Rightarrow>
             case mk_date year_value month_value day_value of Inl e \<Rightarrow> Inl e | Inr gazette_date \<Rightarrow>
               if date_year gazette_date \<noteq> year
               then Inr (fst st, snd st @ [WarningWrongYear gazette_date year])
               else if \<not> (date_le self_start_date gazette_date \<and> date_le gazette_date self_end_date)
               then Inr st
               else
                 let relative_url = strip (node_href gazette_node);
                     url = replace (u ''http://'') (u ''https://'') (urljoin relative_url);
                     is_extra_edition_based_on_its_text =
                       is_extra_edition_search is_extra_edition_text;
                     is_extra_edition_based_on_its_url = is_extra_edition_search url;
                     is_extra_edition =
                       (is_extra_edition_based_on_its_text \<or> is_extra_edition_based_on_its_url)
                 in Inr (validate_uniqueness st gazette_date edition_number is_extra_edition
                           is_extra_edition_text url)))"

text \<open>The loop: the state after the nodes, and the exception that stopped it, if any.\<close>

fun parse_nodes ::
  "date \<Rightarrow> date \<Rightarrow> (str \<Rightarrow> str) \<Rightarrow> int \<Rightarrow> GazettesDataPerPage \<times> log_entry list
     \<Rightarrow> gazette_node list \<Rightarrow> (GazettesDataPerPage \<times> log_entry list) \<times> error option"
where
  "parse_nodes self_start_date self_end_date urljoin year st [] = (st, None)"
| "parse_nodes self_start_date self_end_date urljoin year st (gazette_node # nodes) =
     (case parse_node self_start_date self_end_date urljoin year st gazette_node of
        Inl e \<Rightarrow> (st, Some e)
      | Inr st' \<Rightarrow> parse_nodes self_start_date self_end_date urljoin year st' nodes)"

text \<open>
  \<open>parse_year_post_2013_split\<close>: the items yielded, the log and the exception raised, if
  any. Nothing is yielded before the loop has ended, so an exception in the loop leaves
  no item.
\<close>

definition parse_year_post_2013_split ::
  "date \<Rightarrow> date \<Rightarrow> (str \<Rightarrow> str) \<Rightarrow> gazette_node list \<Rightarrow> int
     \<Rightarrow> Gazette list \<times> log_entry list \<times> error option"
where
  "parse_year_post_2013_split self_start_date self_end_date urljoin nodes year =
     (case parse_nodes self_start_date self_end_date urljoin year ([], []) nodes of
        ((current_gazettes_data_per_page, log), Some e) \<Rightarrow> ([], log, Some e)
      | ((current_gazettes_data_per_page, log), None) \<Rightarrow>
          yield_gazettes current_gazettes_data_per_page log)"

subsection \<open>What a node carries\<close>

text \<open>
  The date embedded in a node's text: \<open>None\<close> when the pattern does not match,
  otherwise the outcome of \<open>int\<close> and \<open>date\<close> on the three digit groups.
\<close>

definition embedded_date :: "gazette_node \<Rightarrow> (error + date) option" where
  "embedded_date gazette_node =
     (case split_gazette_text_search (strip (node_text gazette_node)) of
        None \<Rightarrow> None
      | Some (group1, group2, group3, group4, group5) \<Rightarrow>
          Some (case py_int group3 of Inl e \<Rightarrow> Inl e | Inr year_value \<Rightarrow>
                case py_int group4 of Inl e \<Rightarrow> Inl e | Inr month_value \<Rightarrow>
                case py_int group5 of Inl e \<Rightarrow> Inl e | Inr day_value \<Rightarrow>
                mk_date year_value month_value day_value))"

text \<open>The edition number, the free-text segment and the normalized URL of a node.\<close>

definition node_edition_number :: "gazette_node \<Rightarrow> str" where
  "node_edition_number gazette_node =
     (case split_gazette_text_search (strip (node_text gazette_node)) of
        None \<Rightarrow> [] | Some (group1, group2, group3, group4, group5) \<Rightarrow> group1)"

definition node_extra_text :: "gazette_node \<Rightarrow> str" where
  "node_extra_text gazette_node =
     (case split_gazette_text_search (strip (node_text gazette_node)) of
        None \<Rightarrow> [] | Some (group1, group2, group3, group4, group5) \<Rightarrow> strip group2)"

definition node_url :: "(str \<Rightarrow> str) \<Rightarrow> gazette_node \<Rightarrow> str" where
  "node_url urljoin gazette_node =
     replace (u ''http://'') (u ''https://'') (urljoin (strip (node_href gazette_node)))"

text \<open>
  The key under which a node is registered: its date passed the year and range checks,
  and the flag is the disjunction of the two pattern searches.
\<close>

definition registered_by ::
  "date \<Rightarrow> date \<Rightarrow> (str \<Rightarrow> str) \<Rightarrow> int \<Rightarrow> gazette_node \<Rightarrow> gazette_key \<Rightarrow> bool"
where
  "registered_by sd ed uj year n k =
     (\<exists>d. embedded_date n = Some (Inr d) \<and> date_year d = year \<and> date_le sd d \<and> date_le d ed
          \<and> k = (d, node_edition_number n,
                 is_extra_edition_search (node_extra_text n) \<or> is_extra_edition_search (node_url uj n)))"

section \<open>QueridoDiarioFilesPipeline.file_path\<close>

subsection \<open>pathlib on POSIX paths\<close>

text \<open>
  A pure path is its root (\<open>""\<close>, \<open>"/"\<close> or \<open>"//"\<close>) and its components.
  \<open>split_sep\<close> is \<open>s.split("/")\<close>; the components of a segment are its pieces other than
  \<open>""\<close> and \<open>"."\<close>. \<open>Path(a, b, ...)\<close> goes through the segments: one that starts with a
  slash replaces what came before it.
\<close>

type_synonym PurePath = "str \<times> str list"

fun split_sep :: "str \<Rightarrow> str list" where
  "split_sep [] = [[]]"
| "split_sep (c # s) =
     (if c = 47 then [] # split_sep s
      else (case split_sep s of [] \<Rightarrow> [[c]] | x # xs \<Rightarrow> (c # x) # xs))"

definition components :: "str \<Rightarrow> str list" where
  "components rel = filter (\<lambda>x. x \<noteq> [] \<and> x \<noteq> u ''.'') (split_sep rel)"

definition splitroot :: "str \<Rightarrow> str \<times> str" where
  "splitroot part =
     (if part \<noteq> [] \<and> hd part = 47
      then
        let stripped_part = dropWhile (\<lambda>c. c = 47) part
        in if length part - length stripped_part = 2 then (u ''//'', stripped_part)
           else (u ''/'', stripped_part)
      else ([], part))"

definition Path_join :: "PurePath \<Rightarrow> str \<Rightarrow> PurePath" where
  "Path_join p part =
     (case splitroot part of (root, rel) \<Rightarrow>
        if root \<noteq> [] then (root, components rel) else (fst p, snd p @ components rel))"

definition Path :: "str list \<Rightarrow> PurePath" where
  "Path segments = foldl Path_join ([], []) segments"

fun join_sep :: "str list \<Rightarrow> str" where
  "join_sep [] = []"
| "join_sep [x] = x"
| "join_sep (x # y # xs) = x @ [47] @ join_sep (y # xs)"

text \<open>\<open>str(p)\<close>.\<close>

definition Path_str :: "PurePath \<Rightarrow> str" where
  "Path_str p = (let s = fst p @ join_sep (snd p) in if s = [] then u ''.'' else s)"

text \<open>\<open>p.name\<close> and \<open>p.stem\<close>; \<open>rfind\<close> is \<open>name.rfind(".")\<close>, -1 when there is no dot.\<close>

definition Path_name :: "PurePath \<Rightarrow> str" where
  "Path_name p = (if snd p = [] then [] else last (snd p))"

definition rfind :: "nat \<Rightarrow> str \<Rightarrow> int" where
  "rfind c s =
     (if c \<in> set s then int (length s) - 1 - int (length (takeWhile (\<lambda>x. x \<noteq> c) (rev s)))
      else - 1)"

definition name_stem :: "str \<Rightarrow> str" where
  "name_stem name =
     (let i = rfind 46 name
      in if 0 < i \<and> i < int (length name) - 1 then take (nat i) name else name)"

definition Path_stem :: "PurePath \<Rightarrow> str" where
  "Path_stem p = name_stem (Path_name p)"

subsection \<open>Requests, responses and the digest\<close>

record Request =
  request_url :: str

text \<open>
  Of a response, the value of \<open>response.headers.get("Content-Disposition")\<close>: the bytes of
  the header, \<open>None\<close> when the header is absent.
\<close>

record Response =
  content_disposition_header :: "string option"

text \<open>
  \<open>SP_RIBEIRAO_PRETO_PDF_FILENAME\<close>, the bytes pattern \<^verbatim>\<open>filename="([^"]+)"\<close>; the quote
  is the byte 0x22 and group 1 is item 10.
\<close>

definition SP_RIBEIRAO_PRETO_PDF_FILENAME :: "char item list" where
  "SP_RIBEIRAO_PRETO_PDF_FILENAME =
     map (\<lambda>p. once (\<lambda>c. c = p)) (''filename='' @ [CHR 0x22])
     @ [plus (\<lambda>c. c \<noteq> CHR 0x22), once (\<lambda>c. c = CHR 0x22)]"

definition pdf_filename_search :: "string \<Rightarrow> string option" where
  "pdf_filename_search content_disposition =
     (case regex_search [SP_RIBEIRAO_PRETO_PDF_FILENAME] content_disposition of
        None \<Rightarrow> None
      | Some segments \<Rightarrow> Some (segments ! 10))"

text \<open>
  \<open>hashlib.sha1(b).hexdigest()\<close>: the hash function itself is a parameter \<open>sha1\<close> of the
  model, from bytes to 160 bits; \<open>hexdigest\<close> writes the 160 bits as 40 lower-case
  hexadecimal digits, the most significant first.
\<close>

definition hex_digit :: "nat \<Rightarrow> nat" where
  "hex_digit n = (if n < 10 then 48 + n else 87 + n)"

fun hex_of :: "nat \<Rightarrow> nat \<Rightarrow> str" where
  "hex_of 0 n = []"
| "hex_of (Suc k) n = hex_of k (n div 16) @ [hex_digit (n mod 16)]"

definition hexdigest :: "160 word \<Rightarrow> str" where
  "hexdigest w = hex_of 40 (unat w)"

subsection \<open>The two methods\<close>

text \<open>
  \<open>file_path_for_sp_ribeirao_preto\<close>. \<open>response.headers[...]\<close> raises KeyError without
  the header, and \<open>match_.group(1)\<close> raises AttributeError when the search found nothing.
\<close>

definition file_path_for_sp_ribeirao_preto ::
  "(string \<Rightarrow> 160 word) \<Rightarrow> Request \<Rightarrow> Response \<Rightarrow> Gazette \<Rightarrow> error + str"
where
  "file_path_for_sp_ribeirao_preto sha1 request response item =
     (case content_disposition_header response of
        None \<Rightarrow> Inl KeyError
      | Some content_disposition \<Rightarrow>
          (case pdf_filename_search content_disposition of
             None \<Rightarrow> Inl AttributeError
           | Some pdf_filename \<Rightarrow>
               (case item_date item of
                  None \<Rightarrow> Inl KeyError
                | Some d \<Rightarrow>
                    let datestr = strftime_Ymd d;
                        filename = hexdigest (sha1 pdf_filename)
                    in (case item_territory_id item of
                          None \<Rightarrow> Inl KeyError
                        | Some territory_id \<Rightarrow>
                            Inr (Path_str (Path [territory_id, datestr, filename]))))))"

text \<open>
  The last lines of \<open>file_path\<close>, from the call of the inherited method on:
  \<open>super_file_path\<close> is \<open>FilesPipeline.file_path\<close> of the framework, a parameter of the
  model.
\<close>

definition url_based_file_path :: "(Request \<Rightarrow> str) \<Rightarrow> Request \<Rightarrow> str \<Rightarrow> str \<Rightarrow> str" where
  "url_based_file_path super_file_path request territory_id datestr =
     (let filepath = super_file_path request;
          filename = (if territory_id = u ''3543402'' then Path_stem (Path [filepath])
                      else Path_name (Path [filepath]))
      in Path_str (Path [territory_id, datestr, filename]))"

text \<open>
  \<open>file_path\<close>: the path and what was logged. \<open>item["date"]\<close> and
  \<open>item["territory_id"]\<close> raise KeyError on an item without them. A missing response is
  falsy, and so is a missing or empty header.
\<close>

definition file_path ::
  "(string \<Rightarrow> 160 word) \<Rightarrow> (Request \<Rightarrow> str) \<Rightarrow> Request \<Rightarrow> Response option \<Rightarrow> Gazette
     \<Rightarrow> error + str \<times> log_entry list"
where
  "file_path sha1 super_file_path request response item =
     (case item_date item of
        None \<Rightarrow> Inl KeyError
      | Some d \<Rightarrow>
          let datestr = strftime_Ymd d in
          (case item_territory_id item of
             None \<Rightarrow> Inl KeyError
           | Some territory_id \<Rightarrow>
               (case response of
                  None \<Rightarrow> Inr (url_based_file_path super_file_path request territory_id datestr, [])
                | Some r \<Rightarrow>
                    if territory_id = u ''3543402''
                    then
                      (case content_disposition_header r of
                         None \<Rightarrow>
                           Inr (url_based_file_path super_file_path request territory_id datestr,
                                [InfoNoContentDisposition datestr])
                       | Some content_disposition \<Rightarrow>
                           if content_disposition = []
                           then Inr (url_based_file_path super_file_path request territory_id
                                       datestr,
                                     [InfoNoContentDisposition datestr])
                           else
                             (case pdf_filename_search content_disposition of
                                Some found \<Rightarrow>
                                  (case file_path_for_sp_ribeirao_preto sha1 request r item of
                                     Inl e \<Rightarrow> Inl e
                                   | Inr path \<Rightarrow> Inr (path, []))
                              | None \<Rightarrow>
                                  Inr (url_based_file_path super_file_path request territory_id
                                         datestr,
                                       [InfoNoFilename datestr])))
                    else Inr (url_based_file_path super_file_path request territory_id datestr,
                              []))))"

text \<open>A path segment that \<open>Path\<close> keeps as it is: not empty, not \<open>"."\<close>, without a slash.\<close>

definition plain_segment :: "str \<Rightarrow> bool" where
  "plain_segment x = (x \<noteq> [] \<and> x \<noteq> u ''.'' \<and> 47 \<notin> set x)"

section \<open>Example data\<close>

definition example_file_stored :: file_info where
  "example_file_stored =
     \<lparr>fi_url = u ''https://diariooficialjp.com.br/pdf/2023-01-10.pdf'',
      fi_path = u ''1100122/2023-01-10/0a1b.pdf'', fi_checksum = u ''c0ffee'',
      fi_status = u ''uptodate''\<rparr>"

definition example_file_new :: file_info where
  "example_file_new =
     \<lparr>fi_url = u ''https://diariooficialjp.com.br/pdf/2023-01-10-suplemento.pdf'',
      fi_path = u ''1100122/2023-01-10/2c3d.pdf'', fi_checksum = u ''decade'',
      fi_status = u ''downloaded''\<rparr>"

definition example_item :: Gazette where
  "example_item =
     \<lparr>item_date = Some \<lparr>date_year = 2023, date_month = 1, date_day = 10\<rparr>, item_edition_number = Some (u ''3930''),
      item_is_extra_edition = Some False, item_power = Some (u ''executive''),
      item_file_urls = None, item_source_text = None, item_scraped_at = None,
      item_territory_id = Some (u ''1100122''),
      item_files = Some [example_file_stored, example_file_new]\<rparr>"

definition example_pipeline :: SQLDatabasePipeline where
  "example_pipeline = \<lparr>database_url = Some (u ''postgresql://localhost/qd'')\<rparr>"

text \<open>A database that refuses a row whose checksum it already holds.\<close>

definition unique_checksum :: "Row list \<Rightarrow> Row \<Rightarrow> bool" where
  "unique_checksum db r = (row_file_checksum r \<in> row_file_checksum ` set db)"


text \<open>
  Entries of one page: edition 813 of 2010-04-15 in two parts, the second part listed
  under two URLs, and edition 814 of the next day in two parts listed out of order.
\<close>

definition date_813 :: date where
  "date_813 = \<lparr>date_year = 2010, date_month = 4, date_day = 15\<rparr>"

definition date_814 :: date where
  "date_814 = \<lparr>date_year = 2010, date_month = 4, date_day = 16\<rparr>"

definition conflict_entries :: "entry list" where
  "conflict_entries =
     [(date_813, u ''813'', False, u ''Parte 2'', u ''https://www.domjp.com.br/pdf/2010-04-15-part.2.pdf''),
      (date_813, u ''813'', False, u ''Parte 1'', u ''https://www.domjp.com.br/pdf/2010-04-15-part.1.pdf''),
      (date_813, u ''813'', False, u ''Parte 2'', u ''https://www.domjp.com.br/pdf/2010-04-15-b.pdf''),
      (date_814, u ''814'', False, u ''Parte 2'', u ''https://www.domjp.com.br/pdf/2010-04-16-part.2.pdf''),
      (date_814, u ''814'', False, u ''Parte 1'', u ''https://www.domjp.com.br/pdf/2010-04-16-part.1.pdf'')]"

definition by_text_813 :: by_text where
  "by_text_813 =
     [(u ''Parte 2'', {|u ''https://www.domjp.com.br/pdf/2010-04-15-part.2.pdf'',
                       u ''https://www.domjp.com.br/pdf/2010-04-15-b.pdf''|}),
      (u ''Parte 1'', {|u ''https://www.domjp.com.br/pdf/2010-04-15-part.1.pdf''|})]"

definition by_text_814 :: by_text where
  "by_text_814 =
     [(u ''Parte 2'', {|u ''https://www.domjp.com.br/pdf/2010-04-16-part.2.pdf''|}),
      (u ''Parte 1'', {|u ''https://www.domjp.com.br/pdf/2010-04-16-part.1.pdf''|})]"

definition gazette_814 :: Gazette where
  "gazette_814 =
     \<lparr>item_date = Some date_814, item_edition_number = Some (u ''814''),
      item_is_extra_edition = Some False, item_power = Some (u ''executive''),
      item_file_urls = Some [u ''https://www.domjp.com.br/pdf/2010-04-16-part.1.pdf'',
                             u ''https://www.domjp.com.br/pdf/2010-04-16-part.2.pdf''],
      item_source_text = None, item_scraped_at = None, item_territory_id = None,
      item_files = None\<rparr>"

text \<open>Edition 813 with its second part listed before its first.\<close>

definition parts_entries :: "entry list" where
  "parts_entries =
     [(date_813, u ''813'', False, u ''Parte 2'', u ''https://www.domjp.com.br/pdf/2010-04-15-part.2.pdf''),
      (date_813, u ''813'', False, u ''Parte 1'', u ''https://www.domjp.com.br/pdf/2010-04-15-part.1.pdf'')]"

definition gazette_813 :: Gazette where
  "gazette_813 =
     \<lparr>item_date = Some date_813, item_edition_number = Some (u ''813''),
      item_is_extra_edition = Some False, item_power = Some (u ''executive''),
      item_file_urls = Some [u ''https://www.domjp.com.br/pdf/2010-04-15-part.1.pdf'',
                             u ''https://www.domjp.com.br/pdf/2010-04-15-part.2.pdf''],
      item_source_text = None, item_scraped_at = None, item_territory_id = None,
      item_files = None\<rparr>"

text \<open>
  A listing page queried for 2023. One entry combines an edition of the year before with
  one of the queried year, so that the page's query selects it.
\<close>

definition example_urljoin :: "str \<Rightarrow> str" where
  "example_urljoin relative_url = u ''http://diariooficialjp.com.br/'' @ relative_url"

definition example_start_date :: date where
  "example_start_date = \<lparr>date_year = 2013, date_month = 6, date_day = 3\<rparr>"

definition example_end_date :: date where
  "example_end_date = \<lparr>date_year = 2024, date_month = 1, date_day = 1\<rparr>"

definition node_regular :: gazette_node where
  "node_regular =
     \<lparr>node_text = u '' Edi'' @ [231, 227] @ u ''o 3930 - 2023-01-10 '',
      node_href = u ''pdf/2023-01-10.pdf''\<rparr>"

definition node_supplement :: gazette_node where
  "node_supplement =
     \<lparr>node_text = u ''Edi'' @ [231, 227] @ u ''o 3930 - SUPLEMENTO - 2023-01-10'',
      node_href = u '' pdf/2023-01-10-b.pdf''\<rparr>"

definition node_previous_year :: gazette_node where
  "node_previous_year =
     \<lparr>node_text = u ''Edi'' @ [231, 227] @ u ''o 3929 - 2022-12-30 e 2023-01-02'',
      node_href = u ''pdf/2022-12-30.pdf''\<rparr>"

text \<open>The same entry with digit groups that are no day of the calendar.\<close>

definition node_invalid_date :: gazette_node where
  "node_invalid_date =
     \<lparr>node_text = u ''Edi'' @ [231, 227] @ u ''o 3929 - 2022-02-30 e 2023-01-02'',
      node_href = u ''pdf/2022-02-30.pdf''\<rparr>"

definition gazette_3930 :: Gazette where
  "gazette_3930 =
     \<lparr>item_date = Some \<lparr>date_year = 2023, date_month = 1, date_day = 10\<rparr>,
      item_edition_number = Some (u ''3930''),
      item_is_extra_edition = Some False, item_power = Some (u ''executive''),
      item_file_urls = Some [u ''https://diariooficialjp.com.br/pdf/2023-01-10.pdf''],
      item_source_text = None, item_scraped_at = None, item_territory_id = None,
      item_files = None\<rparr>"

definition gazette_3930_supplement :: Gazette where
  "gazette_3930_supplement =
     \<lparr>item_date = Some \<lparr>date_year = 2023, date_month = 1, date_day = 10\<rparr>,
      item_edition_number = Some (u ''3930''),
      item_is_extra_edition = Some True, item_power = Some (u ''executive''),
      item_file_urls = Some [u ''https://diariooficialjp.com.br/pdf/2023-01-10-b.pdf''],
      item_source_text = None, item_scraped_at = None, item_territory_id = None,
      item_files = None\<rparr>"

text \<open>
  A response of the designated territory whose header names the real file, the item it
  belongs to, and what the inherited method returns for the request.
\<close>

definition example_header :: string where
  "example_header =
     ''attachment; filename='' @ [CHR 0x22] @ ''relatorio.pdf'' @ [CHR 0x22] @ ''; size=1024''"

definition example_response :: Response where
  "example_response = \<lparr>content_disposition_header = Some example_header\<rparr>"

definition example_request :: Request where
  "example_request = \<lparr>request_url = u ''https://www.ribeiraopreto.sp.gov.br/dom/a.xhtml''\<rparr>"

definition other_request :: Request where
  "other_request = \<lparr>request_url = u ''https://www.ribeiraopreto.sp.gov.br/dom/b.xhtml''\<rparr>"

definition example_super_file_path :: "Request \<Rightarrow> str" where
  "example_super_file_path request =
     (if request = example_request then u ''full/0a1b2c3d.xhtml'' else u ''full/4e5f6a7b.xhtml'')"

definition ribeirao_item :: Gazette where
  "ribeirao_item =
     \<lparr>item_date = Some \<lparr>date_year = 2023, date_month = 1, date_day = 10\<rparr>,
      item_edition_number = None, item_is_extra_edition = None, item_power = None,
      item_file_urls = None, item_source_text = None, item_scraped_at = None,
      item_territory_id = Some (u ''3543402''), item_files = None\<rparr>"

definition parana_item :: Gazette where
  "parana_item = ribeirao_item\<lparr>item_territory_id := Some (u ''1100122'')\<rparr>"

text \<open>
  A second header with the same file name, a header that names no file, and the digest
  \<open>hashlib.sha1\<close> gives the bytes of the example's file name (the one argument the
  examples pass to the digest function).
\<close>

definition bare_header :: string where
  "bare_header = ''attachment; filename='' @ [CHR 0x22] @ ''relatorio.pdf'' @ [CHR 0x22]"

definition bare_response :: Response where
  "bare_response = \<lparr>content_disposition_header = Some bare_header\<rparr>"

definition unnamed_response :: Response where
  "unnamed_response = \<lparr>content_disposition_header = Some ''attachment''\<rparr>"

definition example_sha1 :: "string \<Rightarrow> 160 word" where
  "example_sha1 bytes =
     (if bytes = ''relatorio.pdf'' then 0x1debce944e4b72b72c0736bb3148e4b60259f511 else 0)"

section \<open>Properties of the date filter\<close>

lemma date_less_irrefl: "\<not> date_less d d"
  by (simp add: date_less_def)

text \<open>
  C10. The date filter raises DropItem exactly when the spider has a \<open>start_date\<close> that is
  strictly later than the item's date. An item dated exactly \<open>start_date\<close> and any item
  seen by a spider without \<open>start_date\<close> are returned unchanged, as is every item whose
  date is not before \<open>start_date\<close>; \<open>end_date\<close> plays no part.
\<close>

theorem date_filter_lower_bound:
  "((\<exists>m. date_filtering_process_item item sp = Inl (DropItem m)) \<longleftrightarrow>
      (\<exists>sd d. start_date sp = Some sd \<and> item_date item = Some d \<and> date_less d sd))
   \<and> (start_date sp = None \<longrightarrow> date_filtering_process_item item sp = Inr item)
   \<and> (start_date sp = Some sd \<and> item_date item = Some d \<and> \<not> date_less d sd \<longrightarrow>
        date_filtering_process_item item sp = Inr item)
   \<and> (start_date sp = Some sd \<and> item_date item = Some sd \<longrightarrow>
        date_filtering_process_item item sp = Inr item)
   \<and> date_filtering_process_item item (sp\<lparr>end_date := e\<rparr>) = date_filtering_process_item item sp"
  by (auto simp: date_filtering_process_item_def date_less_irrefl split: option.splits)

theorem date_filter_lower_bound_witness:
  "(\<exists>m. date_filtering_process_item
      \<lparr>item_date = Some \<lparr>date_year = 2013, date_month = 6, date_day = 2\<rparr>, item_edition_number = None,
       item_is_extra_edition = None, item_power = None, item_file_urls = None, item_source_text = None,
       item_scraped_at = None, item_territory_id = None, item_files = None\<rparr>
      \<lparr>start_date = Some \<lparr>date_year = 2013, date_month = 6, date_day = 3\<rparr>, end_date = None\<rparr>
    = Inl (DropItem m))
   \<and> date_filtering_process_item
      \<lparr>item_date = Some \<lparr>date_year = 2013, date_month = 6, date_day = 3\<rparr>, item_edition_number = None,
       item_is_extra_edition = None, item_power = None, item_file_urls = None, item_source_text = None,
       item_scraped_at = None, item_territory_id = None, item_files = None\<rparr>
      \<lparr>start_date = Some \<lparr>date_year = 2013, date_month = 6, date_day = 3\<rparr>, end_date = None\<rparr>
    = Inr \<lparr>item_date = Some \<lparr>date_year = 2013, date_month = 6, date_day = 3\<rparr>, item_edition_number = None,
       item_is_extra_edition = None, item_power = None, item_file_urls = None, item_source_text = None,
       item_scraped_at = None, item_territory_id = None, item_files = None\<rparr>
   \<and> date_filtering_process_item
      \<lparr>item_date = None, item_edition_number = None,
       item_is_extra_edition = None, item_power = None, item_file_urls = None, item_source_text = None,
       item_scraped_at = None, item_territory_id = None, item_files = None\<rparr>
      \<lparr>start_date = None, end_date = Some \<lparr>date_year = 2013, date_month = 6, date_day = 3\<rparr>\<rparr>
    = Inr \<lparr>item_date = None, item_edition_number = None,
       item_is_extra_edition = None, item_power = None, item_file_urls = None, item_source_text = None,
       item_scraped_at = None, item_territory_id = None, item_files = None\<rparr>"
proof (intro conjI)
  let ?sp = "\<lparr>start_date = Some \<lparr>date_year = 2013, date_month = 6, date_day = 3\<rparr>, end_date = None\<rparr>"
  let ?early = "\<lparr>item_date = Some \<lparr>date_year = 2013, date_month = 6, date_day = 2\<rparr>, item_edition_number = None,
       item_is_extra_edition = None, item_power = None, item_file_urls = None, item_source_text = None,
       item_scraped_at = None, item_territory_id = None, item_files = None\<rparr>"
  let ?same = "\<lparr>item_date = Some \<lparr>date_year = 2013, date_month = 6, date_day = 3\<rparr>, item_edition_number = None,
       item_is_extra_edition = None, item_power = None, item_file_urls = None, item_source_text = None,
       item_scraped_at = None, item_territory_id = None, item_files = None\<rparr>"
  let ?undated = "\<lparr>item_date = None, item_edition_number = None,
       item_is_extra_edition = None, item_power = None, item_file_urls = None, item_source_text = None,
       item_scraped_at = None, item_territory_id = None, item_files = None\<rparr>"
  show "\<exists>m. date_filtering_process_item ?early ?sp = Inl (DropItem m)"
    using date_filter_lower_bound [of ?early ?sp] by (simp add: date_less_def)
  show "date_filtering_process_item ?same ?sp = Inr ?same"
    using date_filter_lower_bound [of ?same ?sp "\<lparr>date_year = 2013, date_month = 6, date_day = 3\<rparr>"]
    by simp
  show "date_filtering_process_item ?undated
      \<lparr>start_date = None, end_date = Some \<lparr>date_year = 2013, date_month = 6, date_day = 3\<rparr>\<rparr> = Inr ?undated"
    using date_filter_lower_bound [of ?undated
        "\<lparr>start_date = None, end_date = Some \<lparr>date_year = 2013, date_month = 6, date_day = 3\<rparr>\<rparr>"]
    by simp
qed

section \<open>Properties of the database sink\<close>

lemma persist_file_grows: "set (fst st) \<subseteq> set (fst (persist_file cf item st f))"
  by (auto simp: persist_file_def Let_def)

lemma persist_files_grow: "set (fst st) \<subseteq> set (fst (foldl (persist_file cf item) st fs))"
proof (induction fs arbitrary: st)
  case Nil
  then show ?case by simp
next
  case (Cons f fs)
  show ?case using Cons [of "persist_file cf item st f"] persist_file_grows [of st cf item f]
    by auto
qed

lemma persist_file_item_files [simp]:
  "persist_file cf (item\<lparr>item_files := x\<rparr>) = persist_file cf item"
  by (auto simp: persist_file_def gazette_row_def fun_eq_iff Let_def)

lemma persist_files_prefix:
  "\<exists>rest. fst (foldl (persist_file cf item) st fs) = fst st @ rest"
proof (induction fs arbitrary: st)
  case Nil
  then show ?case by simp
next
  case (Cons f fs)
  have "\<exists>r1. fst (persist_file cf item st f) = fst st @ r1"
    by (simp add: persist_file_def Let_def)
  then obtain r1 where r1: "fst (persist_file cf item st f) = fst st @ r1" by blast
  from Cons [of "persist_file cf item st f"] obtain r2 where
    "fst (foldl (persist_file cf item) (persist_file cf item st f) fs)
       = fst (persist_file cf item st f) @ r2" by blast
  then show ?case using r1 by simp
qed

text \<open>
  C8. The item is always returned. A file entry whose status is \<open>uptodate\<close> is skipped:
  the table and the log come out exactly as for the item without that entry. An entry with
  any other status whose commit succeeds is persisted, whatever the status of the entries
  around it: the table after the item is the table as it stood when the entries before it
  had been processed, followed by a new row that carries the seven fields of the item and
  the path, the URL and the checksum of that entry, followed by the rows of later entries.
\<close>

theorem uptodate_skipped:
  "fst (sql_process_item self cf item st) = item
   \<and> (database_url self = Some url \<and> fi_status f = u ''uptodate'' \<longrightarrow>
        snd (sql_process_item self cf (item\<lparr>item_files := Some (fs1 @ f # fs2)\<rparr>) st)
        = snd (sql_process_item self cf (item\<lparr>item_files := Some (fs1 @ fs2)\<rparr>) st))
   \<and> (database_url self = Some url \<and> item_files item = Some (fs1 @ f # fs2)
        \<and> fi_status f \<noteq> u ''uptodate''
        \<and> row = \<lparr>row_source_text = item_source_text item, row_date = item_date item,
                  row_edition_number = item_edition_number item,
                  row_is_extra_edition = item_is_extra_edition item,
                  row_power = item_power item, row_scraped_at = item_scraped_at item,
                  row_territory_id = item_territory_id item,
                  row_file_path = fi_path f, row_file_url = fi_url f,
                  row_file_checksum = fi_checksum f\<rparr>
        \<and> \<not> cf (fst (snd (sql_process_item self cf (item\<lparr>item_files := Some fs1\<rparr>) st))) row \<longrightarrow>
        row \<in> set (fst (snd (sql_process_item self cf item st)))
        \<and> (\<exists>rest. fst (snd (sql_process_item self cf item st))
              = fst (snd (sql_process_item self cf (item\<lparr>item_files := Some fs1\<rparr>) st))
                @ row # rest))"
proof (intro conjI impI)
  show "fst (sql_process_item self cf item st) = item"
    by (simp add: sql_process_item_def split: option.splits)
next
  assume "database_url self = Some url \<and> fi_status f = u ''uptodate''"
  then show "snd (sql_process_item self cf (item\<lparr>item_files := Some (fs1 @ f # fs2)\<rparr>) st)
        = snd (sql_process_item self cf (item\<lparr>item_files := Some (fs1 @ fs2)\<rparr>) st)"
    by (simp add: sql_process_item_def persist_file_def)
next
  assume a: "database_url self = Some url \<and> item_files item = Some (fs1 @ f # fs2)
        \<and> fi_status f \<noteq> u ''uptodate''
        \<and> row = \<lparr>row_source_text = item_source_text item, row_date = item_date item,
                  row_edition_number = item_edition_number item,
                  row_is_extra_edition = item_is_extra_edition item,
                  row_power = item_power item, row_scraped_at = item_scraped_at item,
                  row_territory_id = item_territory_id item,
                  row_file_path = fi_path f, row_file_url = fi_url f,
                  row_file_checksum = fi_checksum f\<rparr>
        \<and> \<not> cf (fst (snd (sql_process_item self cf (item\<lparr>item_files := Some fs1\<rparr>) st))) row"
  let ?st1 = "foldl (persist_file cf item) st fs1"
  have before: "snd (sql_process_item self cf (item\<lparr>item_files := Some fs1\<rparr>) st) = ?st1"
    using a by (simp add: sql_process_item_def)
  have row: "gazette_row item f = row" using a by (simp add: gazette_row_def)
  have ok: "\<not> cf (fst ?st1) row" using a unfolding before by blast
  have status: "fi_status f \<noteq> u ''uptodate''" using a by blast
  have step: "fst (persist_file cf item ?st1 f) = fst ?st1 @ [row]"
    using ok status by (simp add: persist_file_def Let_def row)
  obtain rest where "fst (foldl (persist_file cf item) (persist_file cf item ?st1 f) fs2)
      = fst (persist_file cf item ?st1 f) @ rest"
    using persist_files_prefix by blast
  then have final: "fst (snd (sql_process_item self cf item st)) = fst ?st1 @ row # rest"
    using a step by (simp add: sql_process_item_def)
  show "\<exists>rest. fst (snd (sql_process_item self cf item st))
              = fst (snd (sql_process_item self cf (item\<lparr>item_files := Some fs1\<rparr>) st))
                @ row # rest"
    unfolding before using final by blast
  show "row \<in> set (fst (snd (sql_process_item self cf item st)))"
    unfolding final by simp
qed


theorem uptodate_skipped_witness:
  "snd (sql_process_item example_pipeline unique_checksum
          (example_item\<lparr>item_files := Some ([] @ example_file_stored # [example_file_new])\<rparr>) ([], []))
   = snd (sql_process_item example_pipeline unique_checksum
          (example_item\<lparr>item_files := Some ([] @ [example_file_new])\<rparr>) ([], []))
   \<and> \<lparr>row_source_text = None,
       row_date = Some \<lparr>date_year = 2023, date_month = 1, date_day = 10\<rparr>,
       row_edition_number = Some (u ''3930''), row_is_extra_edition = Some False,
       row_power = Some (u ''executive''), row_scraped_at = None,
       row_territory_id = Some (u ''1100122''),
       row_file_path = u ''1100122/2023-01-10/2c3d.pdf'',
       row_file_url = u ''https://diariooficialjp.com.br/pdf/2023-01-10-suplemento.pdf'',
       row_file_checksum = u ''decade''\<rparr>
       \<in> set (fst (snd (sql_process_item example_pipeline unique_checksum example_item ([], []))))
   \<and> length (fst (snd (sql_process_item example_pipeline unique_checksum example_item ([], [])))) = 1"
proof (intro conjI)
  have s: "fi_status example_file_stored = u ''uptodate''"
    by (simp add: example_file_stored_def)
  show "snd (sql_process_item example_pipeline unique_checksum
          (example_item\<lparr>item_files := Some ([] @ example_file_stored # [example_file_new])\<rparr>) ([], []))
   = snd (sql_process_item example_pipeline unique_checksum
          (example_item\<lparr>item_files := Some ([] @ [example_file_new])\<rparr>) ([], []))"
    using uptodate_skipped [of example_pipeline unique_checksum example_item "([], [])"
        "u ''postgresql://localhost/qd''" example_file_stored "[]" "[example_file_new]"] s
    by (simp add: example_pipeline_def)
  have n: "fi_status example_file_new \<noteq> u ''uptodate''"
    by (simp add: example_file_new_def u_def)
  have before: "snd (sql_process_item example_pipeline unique_checksum
          (example_item\<lparr>item_files := Some [example_file_stored]\<rparr>) ([], [])) = ([], [])"
    by (simp add: sql_process_item_def example_pipeline_def persist_file_def s)
  show "\<lparr>row_source_text = None,
       row_date = Some \<lparr>date_year = 2023, date_month = 1, date_day = 10\<rparr>,
       row_edition_number = Some (u ''3930''), row_is_extra_edition = Some False,
       row_power = Some (u ''executive''), row_scraped_at = None,
       row_territory_id = Some (u ''1100122''),
       row_file_path = u ''1100122/2023-01-10/2c3d.pdf'',
       row_file_url = u ''https://diariooficialjp.com.br/pdf/2023-01-10-suplemento.pdf'',
       row_file_checksum = u ''decade''\<rparr>
       \<in> set (fst (snd (sql_process_item example_pipeline unique_checksum example_item ([], []))))"
    using uptodate_skipped [of example_pipeline unique_checksum example_item "([], [])"
        "u ''postgresql://localhost/qd''" example_file_new "[example_file_stored]" "[]"
        "\<lparr>row_source_text = None,
       row_date = Some \<lparr>date_year = 2023, date_month = 1, date_day = 10\<rparr>,
       row_edition_number = Some (u ''3930''), row_is_extra_edition = Some False,
       row_power = Some (u ''executive''), row_scraped_at = None,
       row_territory_id = Some (u ''1100122''),
       row_file_path = u ''1100122/2023-01-10/2c3d.pdf'',
       row_file_url = u ''https://diariooficialjp.com.br/pdf/2023-01-10-suplemento.pdf'',
       row_file_checksum = u ''decade''\<rparr>"] n
    unfolding before
    by (simp add: example_pipeline_def example_item_def example_file_new_def unique_checksum_def)
  show "length (fst (snd (sql_process_item example_pipeline unique_checksum example_item ([], [])))) = 1"
    by (simp add: sql_process_item_def example_pipeline_def example_item_def persist_file_def s n
        unique_checksum_def)
qed


section \<open>Properties of the aggregation\<close>

lemma url_set_of_validate_uniqueness:
  "url_set_of (fst (validate_uniqueness st d en ie txt url)) k pk =
     (if accepted (d, en, ie, txt, url) \<and> k = (d, en, ie) \<and> pk = txt
      then finsert url (url_set_of (fst st) k pk) else url_set_of (fst st) k pk)"
  by (auto simp: validate_uniqueness_def url_set_of_def accepted_def Let_def update_conv'
      split: option.splits)

lemma validate_uniqueness_present:
  assumes "url |\<in>| url_set_of (fst st) (d, en, ie) txt"
  shows "fst (validate_uniqueness st d en ie txt url) = fst st"
proof -
  from assms obtain bt us where
    bt: "map_of (fst st) (d, en, ie) = Some bt" and us: "map_of bt txt = Some us" and "url |\<in>| us"
    by (auto simp: url_set_of_def split: option.splits)
  then show ?thesis
    by (simp add: validate_uniqueness_def Let_def update_triv)
qed

lemma validate_uniqueness_log:
  "snd (validate_uniqueness st d en ie txt url) =
     (if \<not> accepted (d, en, ie, txt, url) then snd st @ [InfoNotPdf d en ie url]
      else if url |\<in>| url_set_of (fst st) (d, en, ie) txt then snd st @ [InfoSameUrl en d]
      else snd st)"
  by (auto simp: validate_uniqueness_def Let_def accepted_def url_set_of_def split: option.splits)

lemma url_set_of_register:
  "url_set_of (fst (register st e)) k pk =
     (if accepted e \<and> k = (fst e, fst (snd e), fst (snd (snd e))) \<and> pk = fst (snd (snd (snd e)))
      then finsert (snd (snd (snd (snd e)))) (url_set_of (fst st) k pk)
      else url_set_of (fst st) k pk)"
  by (cases e) (simp add: register_def url_set_of_validate_uniqueness)

lemma url_set_of_foldl_register:
  "url |\<in>| url_set_of (fst (foldl register st es)) k pk \<longleftrightarrow>
     url |\<in>| url_set_of (fst st) k pk
     \<or> (\<exists>d en ie. k = (d, en, ie) \<and> (d, en, ie, pk, url) \<in> set es \<and> accepted (d, en, ie, pk, url))"
proof (induction es rule: rev_induct)
  case Nil
  then show ?case by simp
next
  case (snoc e es)
  obtain d en ie' pk' url' where e: "e = (d, en, ie', pk', url')" by (cases e) auto
  show ?case using snoc
    by (auto simp: url_set_of_register e)
qed

lemma url_set_of_empty [simp]: "url_set_of [] k pk = {||}"
  by (simp add: url_set_of_def)

lemma url_set_of_aggregate:
  "url |\<in>| url_set_of (fst (aggregate es)) k pk \<longleftrightarrow>
     (\<exists>d en ie. k = (d, en, ie) \<and> (d, en, ie, pk, url) \<in> set es \<and> accepted (d, en, ie, pk, url))"
  by (simp add: aggregate_def url_set_of_foldl_register)


lemma list_all_update:
  "list_all P al \<Longrightarrow> P (k, v) \<Longrightarrow> list_all P (AList.update k v al)"
  by (induction al) auto

lemma update_not_Nil [simp]: "AList.update k v al \<noteq> []"
  by (cases al) auto

lemma by_text_ok_update:
  assumes "bt = [] \<or> by_text_ok bt" and "us \<noteq> {||}"
  shows "by_text_ok (AList.update pk us bt)"
  using assms by (auto simp: by_text_ok_def distinct_update intro: list_all_update)

lemma page_ok_lookup:
  assumes "page_ok page" and "map_of page k = Some bt"
  shows "by_text_ok bt"
proof -
  have "(k, bt) \<in> set page" using assms(2) by (rule map_of_SomeD)
  then show ?thesis using assms(1) by (auto simp: page_ok_def list_all_iff)
qed

lemma page_ok_update:
  assumes "page_ok page" and "by_text_ok bt"
  shows "page_ok (AList.update k bt page)"
  using assms by (auto simp: page_ok_def distinct_update intro: list_all_update)

lemma page_ok_validate_uniqueness:
  assumes "page_ok (fst st)"
  shows "page_ok (fst (validate_uniqueness st d en ie pk url))"
proof (cases "accepted (d, en, ie, pk, url)")
  case False
  then show ?thesis using assms by (simp add: validate_uniqueness_def accepted_def Let_def)
next
  case True
  show ?thesis
  proof (cases "url |\<in>| url_set_of (fst st) (d, en, ie) pk")
    case True
    then show ?thesis using assms by (simp add: validate_uniqueness_present)
  next
    case False
    define bt where "bt = (case map_of (fst st) (d, en, ie) of None \<Rightarrow> [] | Some x \<Rightarrow> x)"
    define us where "us = (case map_of bt pk of None \<Rightarrow> {||} | Some s \<Rightarrow> s)"
    have "bt = [] \<or> by_text_ok bt"
      using assms page_ok_lookup [of "fst st" "(d, en, ie)"]
      by (auto simp: bt_def split: option.splits)
    then have ok: "by_text_ok (AList.update pk (finsert url us) bt)"
      by (rule by_text_ok_update) simp
    have nin: "url |\<notin>| us"
      using False by (auto simp: url_set_of_def bt_def us_def split: option.splits)
    have "fst (validate_uniqueness st d en ie pk url)
          = AList.update (d, en, ie) (AList.update pk (finsert url us) bt) (fst st)"
      using \<open>accepted (d, en, ie, pk, url)\<close> nin
      by (auto simp: validate_uniqueness_def accepted_def Let_def bt_def us_def)
    then show ?thesis using page_ok_update [OF assms ok] by simp
  qed
qed

lemma page_ok_foldl_register:
  "page_ok (fst st) \<Longrightarrow> page_ok (fst (foldl register st es))"
proof (induction es arbitrary: st)
  case Nil
  then show ?case by simp
next
  case (Cons e es)
  obtain d en ie pk url where e: "e = (d, en, ie, pk, url)" by (cases e) auto
  have "page_ok (fst (register st e))"
    using Cons.prems by (simp add: e register_def page_ok_validate_uniqueness)
  then show ?case using Cons.IH by simp
qed

lemma page_ok_aggregate: "page_ok (fst (aggregate es))"
  unfolding aggregate_def by (rule page_ok_foldl_register) (simp add: page_ok_def)

text \<open>The inner loop on a well-formed inner dict.\<close>

lemma collect_urls_ok:
  assumes "\<forall>key \<in> set keys. \<exists>us. map_of bt key = Some us \<and> us \<noteq> {||}"
  shows "collect_urls en d bt keys (yg, urls, lg) =
     (None,
      yg \<and> (\<forall>key \<in> set keys. fcard (the (map_of bt key)) \<le> 1),
      urls @ map (\<lambda>key. fthe_elem (the (map_of bt key)))
               (filter (\<lambda>key. fcard (the (map_of bt key)) \<le> 1) keys),
      lg @ map (\<lambda>key. ErrorMoreThanOneUrl en d)
               (filter (\<lambda>key. 1 < fcard (the (map_of bt key))) keys))"
  using assms
proof (induction keys arbitrary: yg urls lg)
  case Nil
  then show ?case by simp
next
  case (Cons key keys)
  then obtain us where us: "map_of bt key = Some us" "us \<noteq> {||}" by auto
  have rest: "\<forall>key \<in> set keys. \<exists>us. map_of bt key = Some us \<and> us \<noteq> {||}"
    using Cons.prems by simp
  show ?case
  proof (cases "1 < fcard us")
    case True
    then show ?thesis using us Cons.IH [OF rest] by simp
  next
    case False
    then show ?thesis using us Cons.IH [OF rest] by (simp add: not_less)
  qed
qed


lemma by_text_ok_keys:
  assumes "by_text_ok bt" and "key \<in> set (map fst bt)"
  shows "\<exists>us. map_of bt key = Some us \<and> us \<noteq> {||}"
proof -
  from assms(2) obtain us where "map_of bt key = Some us"
    by (metis list.set_map map_of_eq_None_iff not_Some_eq)
  moreover from this have "(key, us) \<in> set bt" by (rule map_of_SomeD)
  ultimately show ?thesis using assms(1) by (auto simp: by_text_ok_def list_all_iff)
qed

lemma no_conflict_iff:
  assumes "by_text_ok bt"
  shows "no_conflict bt \<longleftrightarrow> (\<forall>key \<in> set (map fst bt). fcard (the (map_of bt key)) \<le> 1)"
proof
  assume nc: "no_conflict bt"
  show "\<forall>key \<in> set (map fst bt). fcard (the (map_of bt key)) \<le> 1"
  proof
    fix key assume "key \<in> set (map fst bt)"
    then obtain us where us: "map_of bt key = Some us"
      using by_text_ok_keys [OF assms] by blast
    then have "(key, us) \<in> set bt" by (rule map_of_SomeD)
    then show "fcard (the (map_of bt key)) \<le> 1"
      using nc us by (auto simp: no_conflict_def list_all_iff)
  qed
next
  assume a: "\<forall>key \<in> set (map fst bt). fcard (the (map_of bt key)) \<le> 1"
  have d: "distinct (map fst bt)" using assms by (simp add: by_text_ok_def)
  show "no_conflict bt"
    unfolding no_conflict_def list_all_iff
  proof
    fix p assume p: "p \<in> set bt"
    then have "map_of bt (fst p) = Some (snd p)" using d by simp
    moreover have "fst p \<in> set (map fst bt)" using p by simp
    ultimately show "fcard (snd p) \<le> 1" using a by fastforce
  qed
qed

lemma collect_urls_by_text_ok:
  assumes "by_text_ok bt"
  shows "collect_urls en d bt (sort (map fst bt)) (True, [], lg) =
     (None, no_conflict bt,
      map (\<lambda>key. fthe_elem (the (map_of bt key)))
        (filter (\<lambda>key. fcard (the (map_of bt key)) \<le> 1) (sort (map fst bt))),
      lg @ map (\<lambda>key. ErrorMoreThanOneUrl en d)
        (filter (\<lambda>key. 1 < fcard (the (map_of bt key))) (sort (map fst bt))))"
proof -
  have "\<forall>key \<in> set (sort (map fst bt)). \<exists>us. map_of bt key = Some us \<and> us \<noteq> {||}"
    using by_text_ok_keys [OF assms] by simp
  from collect_urls_ok [OF this, of en d True "[]" lg] show ?thesis
    using no_conflict_iff [OF assms] by simp
qed

lemma yield_gazettes_ok:
  assumes "list_all (\<lambda>p. by_text_ok (snd p)) page"
  shows "fst (yield_gazettes page lg) = map gazette_of (filter (\<lambda>p. no_conflict (snd p)) page)
         \<and> snd (snd (yield_gazettes page lg)) = None"
  using assms
proof (induction page arbitrary: lg)
  case Nil
  then show ?case by simp
next
  case (Cons p page)
  obtain d en ie bt where p: "p = ((d, en, ie), bt)" by (cases p) auto
  have ok: "by_text_ok bt" and rest: "list_all (\<lambda>p. by_text_ok (snd p)) page"
    using Cons.prems by (simp_all add: p)
  note IH = Cons.IH [OF rest]
  show ?case
  proof (cases "no_conflict bt")
    case False
    then show ?thesis using IH by (simp add: p collect_urls_by_text_ok [OF ok])
  next
    case True
    then have "\<forall>key \<in> set (sort (map fst bt)). fcard (the (map_of bt key)) \<le> 1"
      using no_conflict_iff [OF ok] by simp
    then have all: "filter (\<lambda>key. fcard (the (map_of bt key)) \<le> 1) (sort (map fst bt))
        = sort (map fst bt)"
      by (simp only: filter_id_conv)
    define lg' where "lg' = lg @ map (\<lambda>key. ErrorMoreThanOneUrl en d)
        (filter (\<lambda>key. 1 < fcard (the (map_of bt key))) (sort (map fst bt)))"
    obtain gs lg2 r where y: "yield_gazettes page lg' = (gs, lg2, r)"
      by (cases "yield_gazettes page lg'") auto
    have gs: "gs = map gazette_of (filter (\<lambda>p. no_conflict (snd p)) page)" and r: "r = None"
      using IH [of lg'] y by simp_all
    have c: "collect_urls en d bt (sort (map fst bt)) (True, [], lg)
        = (None, True, map (\<lambda>key. fthe_elem (the (map_of bt key))) (sort (map fst bt)), lg')"
      using collect_urls_by_text_ok [OF ok, of en d lg] True all by (simp only: lg'_def)
    have "yield_gazettes (((d, en, ie), bt) # page) lg
        = (gazette_of ((d, en, ie), bt) # gs, lg2, r)"
      by (simp add: c y gazette_of_def)
    then show ?thesis using True by (simp add: p gs r)
  qed
qed

lemma yield_gazettes_aggregate:
  "fst (yield_gazettes (fst (aggregate es)) lg)
     = map gazette_of (filter (\<lambda>p. no_conflict (snd p)) (fst (aggregate es)))"
  "snd (snd (yield_gazettes (fst (aggregate es)) lg)) = None"
  using yield_gazettes_ok [of "fst (aggregate es)" lg] page_ok_aggregate [of es]
  by (simp_all add: page_ok_def)

lemma gazette_key_of_gazette_of [simp]:
  "gazette_key_of (gazette_of (k, bt)) = some_key k"
  by (cases k) (simp add: gazette_key_of_def gazette_of_def some_key_def)

lemma some_key_inj [simp]: "some_key k = some_key k' \<longleftrightarrow> k = k'"
  by (cases k; cases k') (simp add: some_key_def)

text \<open>
  C1. For a page aggregated from any sequence of entries, finalizing raises nothing, and a
  key of the page has an emitted item exactly when none of its texts holds more than one
  URL: one conflicting text removes the whole key, the other keys are emitted. In terms of
  the entries: two accepted entries with the same key and text and different URLs leave no
  item for that key.
\<close>

theorem conflict_rejection:
  "snd (snd (yield_gazettes (fst (aggregate es)) lg)) = None
   \<and> (map_of (fst (aggregate es)) k = Some bt \<longrightarrow>
        ((\<exists>g \<in> set (fst (yield_gazettes (fst (aggregate es)) lg)). gazette_key_of g = some_key k)
          \<longleftrightarrow> list_all (\<lambda>p. fcard (snd p) \<le> 1) bt))
   \<and> ((d, en, ie, pk, url1) \<in> set es \<and> (d, en, ie, pk, url2) \<in> set es \<and> url1 \<noteq> url2
        \<and> accepted (d, en, ie, pk, url1) \<and> accepted (d, en, ie, pk, url2) \<longrightarrow>
        \<not> (\<exists>g \<in> set (fst (yield_gazettes (fst (aggregate es)) lg)).
              gazette_key_of g = (Some d, Some en, Some ie)))"
proof (intro conjI impI)
  let ?page = "fst (aggregate es)"
  let ?gs = "fst (yield_gazettes ?page lg)"
  have dist: "distinct (map fst ?page)"
    using page_ok_aggregate [of es] by (simp add: page_ok_def)
  have gs: "?gs = map gazette_of (filter (\<lambda>p. no_conflict (snd p)) ?page)"
    by (rule yield_gazettes_aggregate)
  show "snd (snd (yield_gazettes ?page lg)) = None"
    by (rule yield_gazettes_aggregate)
  have main: "(\<exists>g \<in> set ?gs. gazette_key_of g = some_key k') \<longleftrightarrow> no_conflict bt'"
    if "map_of ?page k' = Some bt'" for k' bt'
  proof
    assume "\<exists>g \<in> set ?gs. gazette_key_of g = some_key k'"
    then obtain k2 bt2 where in2: "(k2, bt2) \<in> set ?page" and nc: "no_conflict bt2"
      and "gazette_key_of (gazette_of (k2, bt2)) = some_key k'"
      unfolding gs by auto
    then have "k2 = k'" by simp
    then have "map_of ?page k' = Some bt2" using in2 dist by simp
    then show "no_conflict bt'" using that nc by simp
  next
    assume nc: "no_conflict bt'"
    have "(k', bt') \<in> set ?page" using that by (rule map_of_SomeD)
    then have "gazette_of (k', bt') \<in> set ?gs" using nc unfolding gs by force
    then show "\<exists>g \<in> set ?gs. gazette_key_of g = some_key k'"
      by (metis gazette_key_of_gazette_of)
  qed
  {
    assume "map_of ?page k = Some bt"
    from main [OF this]
    show "(\<exists>g \<in> set ?gs. gazette_key_of g = some_key k)
          \<longleftrightarrow> list_all (\<lambda>p. fcard (snd p) \<le> 1) bt"
      by (simp add: no_conflict_def)
  }
  {
    assume a: "(d, en, ie, pk, url1) \<in> set es \<and> (d, en, ie, pk, url2) \<in> set es \<and> url1 \<noteq> url2
        \<and> accepted (d, en, ie, pk, url1) \<and> accepted (d, en, ie, pk, url2)"
    let ?us = "url_set_of ?page (d, en, ie) pk"
    have m1: "url1 |\<in>| ?us" and m2: "url2 |\<in>| ?us"
      using a by (auto simp: url_set_of_aggregate)
    then obtain bt' where bt': "map_of ?page (d, en, ie) = Some bt'"
      and us: "map_of bt' pk = Some ?us"
      by (auto simp: url_set_of_def split: option.splits)
    have "{|url1, url2|} |\<subseteq>| ?us" using m1 m2 by simp
    then have "fcard {|url1, url2|} \<le> fcard ?us" by (rule fcard_mono)
    then have "1 < fcard ?us" using a by (simp add: fcard_finsert_if)
    moreover have "(pk, ?us) \<in> set bt'" using us by (rule map_of_SomeD)
    ultimately have "\<not> no_conflict bt'"
      by (auto simp: no_conflict_def list_all_iff intro!: bexI [of _ "(pk, ?us)"])
    then show "\<not> (\<exists>g \<in> set ?gs. gazette_key_of g = (Some d, Some en, Some ie))"
      using main [OF bt'] by (simp add: some_key_def)
  }
qed

lemma aggregate_conflict_entries:
  "fst (aggregate conflict_entries)
     = [((date_813, u ''813'', False), by_text_813), ((date_814, u ''814'', False), by_text_814)]"
  by code_simp

lemma yield_conflict_entries:
  "yield_gazettes (fst (aggregate conflict_entries)) []
     = ([gazette_814], [ErrorMoreThanOneUrl (u ''813'') date_813], None)"
  by code_simp

theorem conflict_rejection_witness:
  "map_of (fst (aggregate conflict_entries)) (date_813, u ''813'', False) = Some by_text_813
   \<and> \<not> list_all (\<lambda>p. fcard (snd p) \<le> 1) by_text_813
   \<and> \<not> (\<exists>g \<in> set (fst (yield_gazettes (fst (aggregate conflict_entries)) [])).
          gazette_key_of g = some_key (date_813, u ''813'', False))
   \<and> map_of (fst (aggregate conflict_entries)) (date_814, u ''814'', False) = Some by_text_814
   \<and> list_all (\<lambda>p. fcard (snd p) \<le> 1) by_text_814
   \<and> (\<exists>g \<in> set (fst (yield_gazettes (fst (aggregate conflict_entries)) [])).
          gazette_key_of g = some_key (date_814, u ''814'', False))"
proof -
  have m3: "map_of (fst (aggregate conflict_entries)) (date_813, u ''813'', False) = Some by_text_813"
    by code_simp
  have c3: "\<not> list_all (\<lambda>p. fcard (snd p) \<le> 1) by_text_813"
    by code_simp
  have m4: "map_of (fst (aggregate conflict_entries)) (date_814, u ''814'', False) = Some by_text_814"
    by code_simp
  have c4: "list_all (\<lambda>p. fcard (snd p) \<le> 1) by_text_814"
    by code_simp
  show ?thesis
    using conflict_rejection [of conflict_entries "[]" "(date_813, u ''813'', False)" by_text_813]
      conflict_rejection [of conflict_entries "[]" "(date_814, u ''814'', False)" by_text_814]
      m3 c3 m4 c4
    by blast
qed

lemma validate_uniqueness_rejected:
  "\<not> accepted (d, en, ie, pk, url) \<Longrightarrow> fst (validate_uniqueness st d en ie pk url) = fst st"
  by (simp add: validate_uniqueness_def accepted_def Let_def)

text \<open>
  C4. Calling \<open>_validate_uniqueness\<close> a second time with the same arguments leaves the
  page as the first call left it and only appends one info record to the log, so
  finalizing yields the same. More generally, an entry already among those a page
  aggregated changes nothing when it comes again.
\<close>

theorem idempotent_insertion:
  "fst (validate_uniqueness (validate_uniqueness st d en ie pk url) d en ie pk url)
     = fst (validate_uniqueness st d en ie pk url)
   \<and> snd (validate_uniqueness (validate_uniqueness st d en ie pk url) d en ie pk url)
     = snd (validate_uniqueness st d en ie pk url)
       @ [if accepted (d, en, ie, pk, url) then InfoSameUrl en d else InfoNotPdf d en ie url]
   \<and> yield_gazettes (fst (validate_uniqueness (validate_uniqueness st d en ie pk url) d en ie pk url)) lg
     = yield_gazettes (fst (validate_uniqueness st d en ie pk url)) lg
   \<and> (e \<in> set es \<longrightarrow>
        fst (register (aggregate es) e) = fst (aggregate es)
        \<and> yield_gazettes (fst (aggregate (es @ [e]))) lg = yield_gazettes (fst (aggregate es)) lg)"
proof -
  let ?st1 = "validate_uniqueness st d en ie pk url"
  have same: "fst (validate_uniqueness ?st1 d en ie pk url) = fst ?st1"
  proof (cases "accepted (d, en, ie, pk, url)")
    case True
    then have "url |\<in>| url_set_of (fst ?st1) (d, en, ie) pk"
      by (simp add: url_set_of_validate_uniqueness)
    then show ?thesis by (rule validate_uniqueness_present)
  next
    case False
    then show ?thesis by (rule validate_uniqueness_rejected)
  qed
  have lg: "snd (validate_uniqueness ?st1 d en ie pk url)
     = snd ?st1 @ [if accepted (d, en, ie, pk, url) then InfoSameUrl en d else InfoNotPdf d en ie url]"
    by (simp add: validate_uniqueness_log [of ?st1] url_set_of_validate_uniqueness)
  have again: "fst (register (aggregate es) e) = fst (aggregate es)" if "e \<in> set es"
  proof -
    obtain d' en' ie' pk' url' where e: "e = (d', en', ie', pk', url')" by (cases e) auto
    show ?thesis
    proof (cases "accepted e")
      case True
      then have "url' |\<in>| url_set_of (fst (aggregate es)) (d', en', ie') pk'"
        using that by (auto simp: url_set_of_aggregate e)
      then show ?thesis by (simp add: e register_def validate_uniqueness_present)
    next
      case False
      then show ?thesis by (simp add: e register_def validate_uniqueness_rejected)
    qed
  qed
  have app: "aggregate (es @ [e]) = register (aggregate es) e"
    by (simp add: aggregate_def)
  show ?thesis using same lg again by (simp add: app)
qed

theorem idempotent_insertion_witness:
  "hd conflict_entries \<in> set conflict_entries
   \<and> fst (register (aggregate conflict_entries) (hd conflict_entries))
       = fst (aggregate conflict_entries)
   \<and> yield_gazettes (fst (aggregate (conflict_entries @ [hd conflict_entries]))) []
       = yield_gazettes (fst (aggregate conflict_entries)) []"
proof -
  have "hd conflict_entries \<in> set conflict_entries"
    by (simp add: conflict_entries_def)
  then show ?thesis
    using idempotent_insertion [of _ _ _ _ _ _ "[]" "hd conflict_entries" conflict_entries]
    by blast
qed

lemma single_url:
  assumes "us \<noteq> {||}" and "fcard us \<le> 1"
  obtains x where "us = {|x|}" and "fthe_elem us = x"
proof -
  from assms(1) obtain x where x: "x |\<in>| us" by auto
  then have "{|x|} |\<subseteq>| us" by simp
  moreover have "fcard us \<le> fcard {|x|}" using assms(2) by (simp add: fcard_finsert_if)
  ultimately have eq: "{|x|} = us" by (rule fcard_seteq)
  have "fthe_elem {|x|} = x" by (rule fthe_felem_eq)
  then have "fthe_elem us = x" by (simp only: eq)
  then show ?thesis using that eq by blast
qed

lemma url_set_of_lookup:
  assumes "map_of page k = Some bt" and "map_of bt pk = Some us"
  shows "url_set_of page k pk = us"
  using assms by (simp add: url_set_of_def)

text \<open>The texts of a key in the page are those some accepted entry registered.\<close>

lemma aggregate_texts:
  assumes "map_of (fst (aggregate es)) (d, en, ie) = Some bt"
  shows "set (map fst bt) = {pk. \<exists>url. (d, en, ie, pk, url) \<in> set es \<and> accepted (d, en, ie, pk, url)}"
proof -
  let ?page = "fst (aggregate es)"
  have ok: "by_text_ok bt" using page_ok_lookup [OF page_ok_aggregate assms] .
  show ?thesis
  proof (intro set_eqI iffI)
    fix pk assume "pk \<in> set (map fst bt)"
    then obtain us where us: "map_of bt pk = Some us" "us \<noteq> {||}"
      using by_text_ok_keys [OF ok] by blast
    then obtain url where "url |\<in>| us" by auto
    then have "url |\<in>| url_set_of ?page (d, en, ie) pk"
      using url_set_of_lookup [OF assms us(1)] by simp
    then show "pk \<in> {pk. \<exists>url. (d, en, ie, pk, url) \<in> set es \<and> accepted (d, en, ie, pk, url)}"
      by (auto simp: url_set_of_aggregate)
  next
    fix pk assume "pk \<in> {pk. \<exists>url. (d, en, ie, pk, url) \<in> set es \<and> accepted (d, en, ie, pk, url)}"
    then obtain url where "url |\<in>| url_set_of ?page (d, en, ie) pk"
      by (auto simp: url_set_of_aggregate)
    then obtain us where "map_of bt pk = Some us"
      using assms by (auto simp: url_set_of_def split: option.splits)
    then have "(pk, us) \<in> set bt" by (rule map_of_SomeD)
    then show "pk \<in> set (map fst bt)" by force
  qed
qed

lemma aggregate_keys:
  "(\<exists>bt. map_of (fst (aggregate es)) (d, en, ie) = Some bt)
     \<longleftrightarrow> (\<exists>pk url. (d, en, ie, pk, url) \<in> set es \<and> accepted (d, en, ie, pk, url))"
proof
  assume "\<exists>bt. map_of (fst (aggregate es)) (d, en, ie) = Some bt"
  then obtain bt where bt: "map_of (fst (aggregate es)) (d, en, ie) = Some bt" by blast
  have "by_text_ok bt" using page_ok_lookup [OF page_ok_aggregate bt] .
  then have "set (map fst bt) \<noteq> {}" by (simp add: by_text_ok_def)
  then show "\<exists>pk url. (d, en, ie, pk, url) \<in> set es \<and> accepted (d, en, ie, pk, url)"
    unfolding aggregate_texts [OF bt] by blast
next
  assume "\<exists>pk url. (d, en, ie, pk, url) \<in> set es \<and> accepted (d, en, ie, pk, url)"
  then obtain pk url where "url |\<in>| url_set_of (fst (aggregate es)) (d, en, ie) pk"
    by (auto simp: url_set_of_aggregate)
  then show "\<exists>bt. map_of (fst (aggregate es)) (d, en, ie) = Some bt"
    by (auto simp: url_set_of_def split: option.splits)
qed

text \<open>What an emitted item is, in terms of the entries alone.\<close>

lemma emitted_item:
  assumes "g \<in> set (fst (yield_gazettes (fst (aggregate es)) lg))"
  shows "\<exists>d en ie bt. map_of (fst (aggregate es)) (d, en, ie) = Some bt \<and> no_conflict bt
           \<and> g = gazette_of ((d, en, ie), bt)"
proof -
  let ?page = "fst (aggregate es)"
  have dist: "distinct (map fst ?page)"
    using page_ok_aggregate [of es] by (simp add: page_ok_def)
  from assms obtain k bt where in_page: "(k, bt) \<in> set ?page" and nc: "no_conflict bt"
    and g: "g = gazette_of (k, bt)"
    unfolding yield_gazettes_aggregate by auto
  obtain d en ie where k: "k = (d, en, ie)" by (cases k) auto
  have "map_of ?page (d, en, ie) = Some bt" using in_page dist by (simp add: k)
  then show ?thesis using nc g k by blast
qed

lemma emitted_urls:
  assumes bt: "map_of (fst (aggregate es)) (d, en, ie) = Some bt" and nc: "no_conflict bt"
    and pk: "pk \<in> set (map fst bt)"
  shows "(d, en, ie, pk, fthe_elem (the (map_of bt pk))) \<in> set es
         \<and> accepted (d, en, ie, pk, fthe_elem (the (map_of bt pk)))
         \<and> (\<forall>url. (d, en, ie, pk, url) \<in> set es \<and> accepted (d, en, ie, pk, url)
               \<longrightarrow> url = fthe_elem (the (map_of bt pk)))"
proof -
  let ?page = "fst (aggregate es)"
  have ok: "by_text_ok bt" using page_ok_lookup [OF page_ok_aggregate bt] .
  obtain us where us: "map_of bt pk = Some us" "us \<noteq> {||}"
    using by_text_ok_keys [OF ok pk] by blast
  have "fcard us \<le> 1" using nc no_conflict_iff [OF ok] pk us by fastforce
  with us(2) obtain x where usx: "us = {|x|}" and fe: "fthe_elem us = x"
    by (rule single_url)
  have set_of: "url_set_of ?page (d, en, ie) pk = {|x|}"
    using url_set_of_lookup [OF bt us(1)] usx by simp
  have "x |\<in>| url_set_of ?page (d, en, ie) pk"
    by (simp only: set_of finsertI1)
  then have a: "(d, en, ie, pk, x) \<in> set es \<and> accepted (d, en, ie, pk, x)"
    by (simp add: url_set_of_aggregate)
  have b: "url = x"
    if "(d, en, ie, pk, url) \<in> set es \<and> accepted (d, en, ie, pk, url)" for url
  proof -
    have "url |\<in>| url_set_of ?page (d, en, ie) pk"
      using that by (auto simp: url_set_of_aggregate)
    then have "url |\<in>| {|x|}" by (simp only: set_of)
    then show ?thesis by simp
  qed
  have fe': "fthe_elem (the (map_of bt pk)) = x" using us(1) fe by simp
  show ?thesis unfolding fe' using a b by blast
qed


lemma url_set_of_aggregate_cong:
  assumes "set es = set es'"
  shows "url_set_of (fst (aggregate es)) k pk = url_set_of (fst (aggregate es')) k pk"
proof (cases k)
  case (fields d en ie)
  show ?thesis
    by (rule fset_eqI) (simp add: url_set_of_aggregate fields assms)
qed

lemma by_text_lookup:
  assumes bt: "map_of page k = Some bt" and ok: "by_text_ok bt" and key: "key \<in> set (map fst bt)"
  shows "the (map_of bt key) = url_set_of page k key"
proof -
  obtain us where us: "map_of bt key = Some us" using by_text_ok_keys [OF ok key] by blast
  show ?thesis using url_set_of_lookup [OF bt us] us by simp
qed

lemma emitted_order_free:
  assumes eq: "set es = set es'"
    and g: "g \<in> set (fst (yield_gazettes (fst (aggregate es)) lg))"
  shows "g \<in> set (fst (yield_gazettes (fst (aggregate es')) lg'))"
proof -
  let ?page = "fst (aggregate es)" and ?page' = "fst (aggregate es')"
  from emitted_item [OF g] obtain d en ie bt where
    bt: "map_of ?page (d, en, ie) = Some bt" and nc: "no_conflict bt"
    and g_def: "g = gazette_of ((d, en, ie), bt)" by blast
  have "\<exists>bt. map_of ?page (d, en, ie) = Some bt" using bt by blast
  then have "\<exists>bt'. map_of ?page' (d, en, ie) = Some bt'"
    unfolding aggregate_keys eq .
  then obtain bt' where bt': "map_of ?page' (d, en, ie) = Some bt'" by blast
  have ok: "by_text_ok bt" using page_ok_lookup [OF page_ok_aggregate bt] .
  have ok': "by_text_ok bt'" using page_ok_lookup [OF page_ok_aggregate bt'] .
  have keys: "set (map fst bt') = set (map fst bt)"
    unfolding aggregate_texts [OF bt] aggregate_texts [OF bt'] eq ..
  have same: "the (map_of bt' key) = the (map_of bt key)" if "key \<in> set (map fst bt)" for key
  proof -
    have "the (map_of bt' key) = url_set_of ?page' (d, en, ie) key"
      using by_text_lookup [OF bt' ok'] that keys by blast
    also have "\<dots> = url_set_of ?page (d, en, ie) key"
      using url_set_of_aggregate_cong [OF eq] by simp
    also have "\<dots> = the (map_of bt key)"
      using by_text_lookup [OF bt ok that] by simp
    finally show ?thesis .
  qed
  have nc': "no_conflict bt'"
    unfolding no_conflict_iff [OF ok'] keys
    using nc same by (simp add: no_conflict_iff [OF ok])
  have srt: "sort (map fst bt') = sort (map fst bt)"
  proof (rule sorted_distinct_set_unique)
    show "distinct (sort (map fst bt'))" using ok' by (simp add: by_text_ok_def)
    show "distinct (sort (map fst bt))" using ok by (simp add: by_text_ok_def)
    show "set (sort (map fst bt')) = set (sort (map fst bt))" using keys by simp
  qed simp_all
  have "map (\<lambda>key. fthe_elem (the (map_of bt' key))) (sort (map fst bt))
      = map (\<lambda>key. fthe_elem (the (map_of bt key))) (sort (map fst bt))"
    by (rule map_cong) (simp_all add: same)
  then have "gazette_of ((d, en, ie), bt') = g"
    by (simp add: g_def gazette_of_def srt)
  moreover have "((d, en, ie), bt') \<in> set ?page'" using bt' by (rule map_of_SomeD)
  ultimately show ?thesis
    unfolding yield_gazettes_aggregate using nc' by force
qed

text \<open>
  C2. The document list of every emitted item follows the sorted texts of its key: there is
  a strictly sorted list of the texts that accepted entries registered under the key, and
  the document list holds, position by position, the URL registered under that text. This
  fixes the list from the set of entries alone, so two pages with the same entries in any
  order emit the same items.
\<close>

theorem part_key_ordering:
  "(g \<in> set (fst (yield_gazettes (fst (aggregate es)) lg)) \<longrightarrow>
      (\<exists>d en ie pks urls.
          gazette_key_of g = (Some d, Some en, Some ie) \<and> item_file_urls g = Some urls
          \<and> sorted pks \<and> distinct pks
          \<and> set pks = {pk. \<exists>url. (d, en, ie, pk, url) \<in> set es \<and> accepted (d, en, ie, pk, url)}
          \<and> length urls = length pks
          \<and> (\<forall>i < length pks. (d, en, ie, pks ! i, urls ! i) \<in> set es
                 \<and> accepted (d, en, ie, pks ! i, urls ! i))))
   \<and> (set es = set es' \<longrightarrow>
        set (fst (yield_gazettes (fst (aggregate es)) lg))
        = set (fst (yield_gazettes (fst (aggregate es')) lg)))"
proof (intro conjI impI)
  assume g: "g \<in> set (fst (yield_gazettes (fst (aggregate es)) lg))"
  from emitted_item [OF g] obtain d en ie bt where
    bt: "map_of (fst (aggregate es)) (d, en, ie) = Some bt" and nc: "no_conflict bt"
    and g_def: "g = gazette_of ((d, en, ie), bt)" by blast
  have ok: "by_text_ok bt" using page_ok_lookup [OF page_ok_aggregate bt] .
  define pks where "pks = sort (map fst bt)"
  define urls where "urls = map (\<lambda>key. fthe_elem (the (map_of bt key))) pks"
  have in_bt: "pks ! i \<in> set (map fst bt)" if "i < length pks" for i
    using that nth_mem [of i pks] by (simp add: pks_def)
  have "gazette_key_of g = (Some d, Some en, Some ie)"
    by (simp add: g_def some_key_def)
  moreover have "item_file_urls g = Some urls"
    by (simp add: g_def gazette_of_def urls_def pks_def)
  moreover have "sorted pks" by (simp add: pks_def)
  moreover have "distinct pks" using ok by (simp add: pks_def by_text_ok_def)
  moreover have "set pks = {pk. \<exists>url. (d, en, ie, pk, url) \<in> set es \<and> accepted (d, en, ie, pk, url)}"
    using aggregate_texts [OF bt] by (simp add: pks_def)
  moreover have "length urls = length pks" by (simp add: urls_def)
  moreover have "\<forall>i < length pks. (d, en, ie, pks ! i, urls ! i) \<in> set es
                 \<and> accepted (d, en, ie, pks ! i, urls ! i)"
    using emitted_urls [OF bt nc in_bt] by (simp add: urls_def)
  ultimately show "\<exists>d en ie pks urls.
          gazette_key_of g = (Some d, Some en, Some ie) \<and> item_file_urls g = Some urls
          \<and> sorted pks \<and> distinct pks
          \<and> set pks = {pk. \<exists>url. (d, en, ie, pk, url) \<in> set es \<and> accepted (d, en, ie, pk, url)}
          \<and> length urls = length pks
          \<and> (\<forall>i < length pks. (d, en, ie, pks ! i, urls ! i) \<in> set es
                 \<and> accepted (d, en, ie, pks ! i, urls ! i))"
    by blast
next
  assume eq: "set es = set es'"
  show "set (fst (yield_gazettes (fst (aggregate es)) lg))
        = set (fst (yield_gazettes (fst (aggregate es')) lg))"
    using emitted_order_free [OF eq] emitted_order_free [OF eq [symmetric]] by blast
qed

theorem part_key_ordering_witness:
  "yield_gazettes (fst (aggregate parts_entries)) [] = ([gazette_813], [], None)
   \<and> (\<exists>d en ie pks urls.
          gazette_key_of gazette_813 = (Some d, Some en, Some ie)
          \<and> item_file_urls gazette_813 = Some urls
          \<and> sorted pks \<and> distinct pks
          \<and> set pks = {pk. \<exists>url. (d, en, ie, pk, url) \<in> set parts_entries
                               \<and> accepted (d, en, ie, pk, url)}
          \<and> length urls = length pks
          \<and> (\<forall>i < length pks. (d, en, ie, pks ! i, urls ! i) \<in> set parts_entries
                 \<and> accepted (d, en, ie, pks ! i, urls ! i)))
   \<and> set (fst (yield_gazettes (fst (aggregate parts_entries)) []))
       = set (fst (yield_gazettes (fst (aggregate (rev parts_entries))) []))"
proof -
  have y: "yield_gazettes (fst (aggregate parts_entries)) [] = ([gazette_813], [], None)"
    by code_simp
  have g: "gazette_813 \<in> set (fst (yield_gazettes (fst (aggregate parts_entries)) []))"
    by (simp add: y)
  have r: "set parts_entries = set (rev parts_entries)" by simp
  show ?thesis
    using part_key_ordering [of gazette_813 parts_entries "[]" "rev parts_entries"] g r y
    by blast
qed

section \<open>Properties of the listing page\<close>

text \<open>What \<open>parse_node\<close> does, by the cases of the embedded date.\<close>

lemma parse_node_cases:
  "parse_node sd ed uj year st n =
     (case embedded_date n of
        None \<Rightarrow> Inr (fst st, snd st @ [InfoUnableToExtract (strip (node_text n))])
      | Some (Inl e) \<Rightarrow> Inl e
      | Some (Inr d) \<Rightarrow>
          if date_year d \<noteq> year then Inr (fst st, snd st @ [WarningWrongYear d year])
          else if \<not> (date_le sd d \<and> date_le d ed) then Inr st
          else Inr (validate_uniqueness st d (node_edition_number n)
                 (is_extra_edition_search (node_extra_text n) \<or> is_extra_edition_search (node_url uj n))
                 (node_extra_text n) (node_url uj n)))"
proof (cases "split_gazette_text_search (strip (node_text n))")
  case None
  then show ?thesis by (simp add: parse_node_def embedded_date_def)
next
  case (Some groups)
  obtain g1 g2 g3 g4 g5 where groups: "groups = (g1, g2, g3, g4, g5)"
    by (cases groups) auto
  show ?thesis
    unfolding parse_node_def embedded_date_def node_edition_number_def node_extra_text_def
      node_url_def Let_def Some groups
    by (simp split: sum.splits)
qed

lemma parse_node_wrong_year:
  assumes "embedded_date n = Some (Inr d)" and "date_year d \<noteq> year"
  shows "parse_node sd ed uj year st n = Inr (fst st, snd st @ [WarningWrongYear d year])"
  using assms by (simp add: parse_node_cases)

lemma parse_node_registers:
  assumes "embedded_date n = Some (Inr d)" and "date_year d = year"
    and "date_le sd d" and "date_le d ed"
  shows "parse_node sd ed uj year st n =
     Inr (validate_uniqueness st d (node_edition_number n)
            (is_extra_edition_search (node_extra_text n) \<or> is_extra_edition_search (node_url uj n))
            (node_extra_text n) (node_url uj n))"
  using assms by (simp add: parse_node_cases)

lemma validate_uniqueness_page_log:
  "fst (validate_uniqueness (p, l1) d en ie pk url) = fst (validate_uniqueness (p, l2) d en ie pk url)"
  by (simp add: validate_uniqueness_def Let_def)

lemma validate_uniqueness_keys:
  "fst ` set (fst (validate_uniqueness st d en ie pk url)) \<subseteq> insert (d, en, ie) (fst ` set (fst st))"
  by (auto simp: validate_uniqueness_def Let_def dom_update)

lemma parse_node_page_log:
  "map_sum id fst (parse_node sd ed uj year (p, l1) n) = map_sum id fst (parse_node sd ed uj year (p, l2) n)"
  by (simp add: parse_node_cases validate_uniqueness_page_log [of p l1 _ _ _ _ _ l2]
      split: option.splits sum.splits)

lemma parse_nodes_page_log:
  "fst (fst (parse_nodes sd ed uj year (p, l1) ns)) = fst (fst (parse_nodes sd ed uj year (p, l2) ns))
   \<and> snd (parse_nodes sd ed uj year (p, l1) ns) = snd (parse_nodes sd ed uj year (p, l2) ns)"
proof (induction ns arbitrary: p l1 l2)
  case Nil
  then show ?case by simp
next
  case (Cons n ns)
  show ?case
  proof (cases "parse_node sd ed uj year (p, l1) n")
    case (Inl e)
    then have "parse_node sd ed uj year (p, l2) n = Inl e"
      using parse_node_page_log [of sd ed uj year p l1 n l2] by (cases "parse_node sd ed uj year (p, l2) n") auto
    then show ?thesis using Inl by simp
  next
    case (Inr st1)
    then obtain st2 where st2: "parse_node sd ed uj year (p, l2) n = Inr st2" and "fst st2 = fst st1"
      using parse_node_page_log [of sd ed uj year p l1 n l2] by (cases "parse_node sd ed uj year (p, l2) n") auto
    then show ?thesis using Inr Cons.IH [of "fst st1" "snd st1" "snd st2"]
      by (cases st1; cases st2) simp
  qed
qed

lemma parse_nodes_append:
  "parse_nodes sd ed uj year st (ns1 @ ns2) =
     (case parse_nodes sd ed uj year st ns1 of
        (st1, Some e) \<Rightarrow> (st1, Some e)
      | (st1, None) \<Rightarrow> parse_nodes sd ed uj year st1 ns2)"
  by (induction ns1 arbitrary: st) (auto split: sum.splits)

lemma page_ok_parse_node:
  assumes "page_ok (fst st)" and "parse_node sd ed uj year st n = Inr st'"
  shows "page_ok (fst st')"
  using assms
  by (auto simp: parse_node_cases page_ok_validate_uniqueness split: option.splits sum.splits if_splits)

lemma page_ok_parse_nodes:
  "page_ok (fst st) \<Longrightarrow> page_ok (fst (fst (parse_nodes sd ed uj year st ns)))"
proof (induction ns arbitrary: st)
  case Nil
  then show ?case by simp
next
  case (Cons n ns)
  then show ?case
    by (cases "parse_node sd ed uj year st n") (auto dest: page_ok_parse_node)
qed

lemma parse_node_keys:
  assumes "parse_node sd ed uj year st n = Inr st'" and "k \<in> fst ` set (fst st')"
  shows "k \<in> fst ` set (fst st) \<or> registered_by sd ed uj year n k"
proof (cases "embedded_date n")
  case None
  then show ?thesis using assms by (auto simp: parse_node_cases)
next
  case (Some r)
  show ?thesis
  proof (cases r)
    case (Inl e)
    then show ?thesis using assms Some by (simp add: parse_node_cases)
  next
    case (Inr d)
    show ?thesis
    proof (cases "date_year d = year \<and> date_le sd d \<and> date_le d ed")
      case False
      then show ?thesis using assms Some Inr by (auto simp: parse_node_cases split: if_splits)
    next
      case True
      then have "st' = validate_uniqueness st d (node_edition_number n)
            (is_extra_edition_search (node_extra_text n) \<or> is_extra_edition_search (node_url uj n))
            (node_extra_text n) (node_url uj n)"
        using assms(1) Some Inr by (simp add: parse_node_cases)
      then have "k \<in> insert (d, node_edition_number n,
            is_extra_edition_search (node_extra_text n) \<or> is_extra_edition_search (node_url uj n))
            (fst ` set (fst st))"
        using assms(2) validate_uniqueness_keys by blast
      then show ?thesis using True Some Inr by (auto simp: registered_by_def)
    qed
  qed
qed

lemma parse_nodes_keys:
  assumes "k \<in> fst ` set (fst (fst (parse_nodes sd ed uj year st ns)))"
  shows "k \<in> fst ` set (fst st) \<or> (\<exists>n \<in> set ns. registered_by sd ed uj year n k)"
  using assms
proof (induction ns arbitrary: st)
  case Nil
  then show ?case by simp
next
  case (Cons n ns)
  show ?case
  proof (cases "parse_node sd ed uj year st n")
    case (Inl e)
    then show ?thesis using Cons.prems by simp
  next
    case (Inr st')
    then have "k \<in> fst ` set (fst st') \<or> (\<exists>n \<in> set ns. registered_by sd ed uj year n k)"
      using Cons.IH [of st'] Cons.prems by simp
    then show ?thesis using parse_node_keys [OF Inr, of k] by auto
  qed
qed


lemma parse_year_result:
  "fst (parse_year_post_2013_split sd ed uj nodes year) =
     (case snd (parse_nodes sd ed uj year ([], []) nodes) of
        Some e \<Rightarrow> []
      | None \<Rightarrow> map gazette_of (filter (\<lambda>p. no_conflict (snd p))
                  (fst (fst (parse_nodes sd ed uj year ([], []) nodes)))))"
  "snd (snd (parse_year_post_2013_split sd ed uj nodes year))
     = snd (parse_nodes sd ed uj year ([], []) nodes)"
proof -
  obtain page lg r where R: "parse_nodes sd ed uj year ([], []) nodes = ((page, lg), r)"
    by (cases "parse_nodes sd ed uj year ([], []) nodes") auto
  have "page_ok (fst (fst (parse_nodes sd ed uj year ([], []) nodes)))"
    by (rule page_ok_parse_nodes) (simp add: page_ok_def)
  then have ok: "list_all (\<lambda>p. by_text_ok (snd p)) page" by (simp add: R page_ok_def)
  show "fst (parse_year_post_2013_split sd ed uj nodes year) =
     (case snd (parse_nodes sd ed uj year ([], []) nodes) of
        Some e \<Rightarrow> []
      | None \<Rightarrow> map gazette_of (filter (\<lambda>p. no_conflict (snd p))
                  (fst (fst (parse_nodes sd ed uj year ([], []) nodes)))))"
    using yield_gazettes_ok [OF ok, of lg]
    by (simp add: parse_year_post_2013_split_def R split: option.splits)
  show "snd (snd (parse_year_post_2013_split sd ed uj nodes year))
     = snd (parse_nodes sd ed uj year ([], []) nodes)"
    using yield_gazettes_ok [OF ok, of lg]
    by (simp add: parse_year_post_2013_split_def R split: option.splits)
qed

lemma parse_nodes_skip:
  assumes "parse_node sd ed uj year st n = Inr (fst st, lg)"
  shows "fst (fst (parse_nodes sd ed uj year st (n # ns))) = fst (fst (parse_nodes sd ed uj year st ns))
         \<and> snd (parse_nodes sd ed uj year st (n # ns)) = snd (parse_nodes sd ed uj year st ns)"
  using assms parse_nodes_page_log [of sd ed uj year "fst st" lg ns "snd st"] by simp

lemma parse_nodes_remove:
  assumes "\<And>st. \<exists>lg. parse_node sd ed uj year st n = Inr (fst st, lg)"
  shows "fst (fst (parse_nodes sd ed uj year st (ns1 @ n # ns2)))
           = fst (fst (parse_nodes sd ed uj year st (ns1 @ ns2)))
         \<and> snd (parse_nodes sd ed uj year st (ns1 @ n # ns2))
           = snd (parse_nodes sd ed uj year st (ns1 @ ns2))"
proof -
  obtain st1 r where R: "parse_nodes sd ed uj year st ns1 = (st1, r)"
    by (cases "parse_nodes sd ed uj year st ns1") auto
  show ?thesis
  proof (cases r)
    case (Some e)
    then show ?thesis by (simp add: parse_nodes_append R)
  next
    case None
    from assms [of st1] obtain lg where "parse_node sd ed uj year st1 n = Inr (fst st1, lg)" by blast
    from parse_nodes_skip [OF this, of ns2] show ?thesis
      by (simp only: parse_nodes_append R None prod.case option.case)
  qed
qed

text \<open>
  A node whose digit groups are a day of the calendar in another year than the queried one
  is skipped with a warning: the page's dict is left as it was and the loop goes on. The
  items and the outcome of the page are those of the page without that node, and every item
  a page emits is dated in the queried year.
\<close>

theorem wrong_year_skipped:
  "(embedded_date n = Some (Inr d) \<and> date_year d \<noteq> year \<longrightarrow>
      parse_node sd ed uj year st n = Inr (fst st, snd st @ [WarningWrongYear d year])
      \<and> parse_nodes sd ed uj year st (n # ns)
          = parse_nodes sd ed uj year (fst st, snd st @ [WarningWrongYear d year]) ns
      \<and> fst (parse_year_post_2013_split sd ed uj (ns1 @ n # ns2) year)
          = fst (parse_year_post_2013_split sd ed uj (ns1 @ ns2) year)
      \<and> snd (snd (parse_year_post_2013_split sd ed uj (ns1 @ n # ns2) year))
          = snd (snd (parse_year_post_2013_split sd ed uj (ns1 @ ns2) year)))
   \<and> (\<forall>g \<in> set (fst (parse_year_post_2013_split sd ed uj nodes year)).
         \<exists>d'. item_date g = Some d' \<and> date_year d' = year)"
proof (intro conjI impI ballI)
  assume a: "embedded_date n = Some (Inr d) \<and> date_year d \<noteq> year"
  then have skip: "parse_node sd ed uj year st' n = Inr (fst st', snd st' @ [WarningWrongYear d year])"
    for st'
    by (simp add: parse_node_wrong_year)
  show "parse_node sd ed uj year st n = Inr (fst st, snd st @ [WarningWrongYear d year])"
    by (rule skip)
  show "parse_nodes sd ed uj year st (n # ns)
          = parse_nodes sd ed uj year (fst st, snd st @ [WarningWrongYear d year]) ns"
    by (simp add: skip)
  have rm: "fst (fst (parse_nodes sd ed uj year ([], []) (ns1 @ n # ns2)))
           = fst (fst (parse_nodes sd ed uj year ([], []) (ns1 @ ns2)))
         \<and> snd (parse_nodes sd ed uj year ([], []) (ns1 @ n # ns2))
           = snd (parse_nodes sd ed uj year ([], []) (ns1 @ ns2))"
    by (rule parse_nodes_remove) (use skip in blast)
  show "fst (parse_year_post_2013_split sd ed uj (ns1 @ n # ns2) year)
          = fst (parse_year_post_2013_split sd ed uj (ns1 @ ns2) year)"
    by (simp only: parse_year_result rm)
  show "snd (snd (parse_year_post_2013_split sd ed uj (ns1 @ n # ns2) year))
          = snd (snd (parse_year_post_2013_split sd ed uj (ns1 @ ns2) year))"
    by (simp only: parse_year_result rm)
next
  fix g assume g: "g \<in> set (fst (parse_year_post_2013_split sd ed uj nodes year))"
  let ?page = "fst (fst (parse_nodes sd ed uj year ([], []) nodes))"
  from g obtain k bt where in_page: "(k, bt) \<in> set ?page" and g_def: "g = gazette_of (k, bt)"
    by (auto simp: parse_year_result split: option.splits)
  have "k \<in> fst ` set ?page" using in_page by force
  then obtain n where "registered_by sd ed uj year n k"
    using parse_nodes_keys [of k sd ed uj year "([], [])" nodes] by auto
  then obtain d' en ie where "k = (d', en, ie)" and "date_year d' = year"
    by (auto simp: registered_by_def)
  then show "\<exists>d'. item_date g = Some d' \<and> date_year d' = year"
    by (simp add: g_def gazette_of_def)
qed

text \<open>The definitions that evaluate the patterns on a given text.\<close>

lemmas regex_eval =
  split_gazette_text_search_def POST_2013_SPLIT_GAZETTE_TEXT_PATTERN_def
  is_extra_edition_search_def IS_EXTRA_EDITION_PATTERN_def strip_def give_back.simps
  word_ignorecase_def once_def plus_def star_def optional_def exactly_def greatest_def u_def
  is_digit_def py_isspace_def any_but_newline_def ignorecase_def ignorecase_variants_def

lemma split_search_previous_year:
  "split_gazette_text_search (strip (node_text node_previous_year))
     = Some (u ''3929'', [], u ''2022'', u ''12'', u ''30'')"
  by (simp add: regex_eval node_previous_year_def)

lemma embedded_date_previous_year:
  "embedded_date node_previous_year = Some (Inr \<lparr>date_year = 2022, date_month = 12, date_day = 30\<rparr>)"
  by (simp add: embedded_date_def split_search_previous_year py_int_def u_def is_digit_def
      mk_date_def days_in_month_def)

lemma split_search_regular:
  "split_gazette_text_search (strip (node_text node_regular))
     = Some (u ''3930'', [], u ''2023'', u ''01'', u ''10'')"
  by (simp add: regex_eval node_regular_def)

lemma no_extra_empty: "is_extra_edition_search [] = False"
  by (simp add: regex_eval)

lemma url_regular:
  "node_url example_urljoin node_regular = u ''https://diariooficialjp.com.br/pdf/2023-01-10.pdf''"
  by (simp add: node_url_def example_urljoin_def node_regular_def replace_def strip_def u_def py_isspace_def)

lemma no_extra_url: "is_extra_edition_search (u ''https://diariooficialjp.com.br/pdf/2023-01-10.pdf'') = False"
  by (simp add: regex_eval)


lemma embedded_date_regular:
  "embedded_date node_regular = Some (Inr \<lparr>date_year = 2023, date_month = 1, date_day = 10\<rparr>)"
  by (simp add: embedded_date_def split_search_regular py_int_def u_def is_digit_def
      mk_date_def days_in_month_def)

lemma strip_Nil: "strip [] = []"
  by (simp add: strip_def)

lemma node_regular_fields:
  "node_edition_number node_regular = u ''3930''" "node_extra_text node_regular = []"
  by (simp_all add: node_edition_number_def node_extra_text_def split_search_regular strip_Nil)

lemma parse_node_regular:
  "parse_node example_start_date example_end_date example_urljoin 2023 ([], []) node_regular
     = Inr ([((\<lparr>date_year = 2023, date_month = 1, date_day = 10\<rparr>, u ''3930'', False),
              [([], {|u ''https://diariooficialjp.com.br/pdf/2023-01-10.pdf''|})])], [])"
  by (simp add: parse_node_cases embedded_date_regular node_regular_fields url_regular
      no_extra_empty no_extra_url example_start_date_def example_end_date_def date_le_def
      date_less_def validate_uniqueness_def Let_def endswith_def)

lemma parse_year_regular:
  "parse_year_post_2013_split example_start_date example_end_date example_urljoin
     [node_regular, node_previous_year] 2023
   = ([gazette_3930],
      [WarningWrongYear \<lparr>date_year = 2022, date_month = 12, date_day = 30\<rparr> 2023], None)"
proof -
  have "parse_nodes example_start_date example_end_date example_urljoin 2023 ([], [])
          [node_regular, node_previous_year]
        = (([((\<lparr>date_year = 2023, date_month = 1, date_day = 10\<rparr>, u ''3930'', False),
              [([], {|u ''https://diariooficialjp.com.br/pdf/2023-01-10.pdf''|})])],
            [WarningWrongYear \<lparr>date_year = 2022, date_month = 12, date_day = 30\<rparr> 2023]), None)"
    by (simp add: parse_node_regular parse_node_wrong_year [OF embedded_date_previous_year])
  moreover have "yield_gazettes
        [((\<lparr>date_year = 2023, date_month = 1, date_day = 10\<rparr>, u ''3930'', False),
              [([], {|u ''https://diariooficialjp.com.br/pdf/2023-01-10.pdf''|})])]
        [WarningWrongYear \<lparr>date_year = 2022, date_month = 12, date_day = 30\<rparr> 2023]
      = ([gazette_3930],
         [WarningWrongYear \<lparr>date_year = 2022, date_month = 12, date_day = 30\<rparr> 2023], None)"
    by code_simp
  ultimately show ?thesis by (simp add: parse_year_post_2013_split_def)
qed

theorem wrong_year_skipped_example:
  "embedded_date node_previous_year = Some (Inr \<lparr>date_year = 2022, date_month = 12, date_day = 30\<rparr>)
   \<and> parse_node example_start_date example_end_date example_urljoin 2023 ([], []) node_previous_year
       = Inr ([], [WarningWrongYear \<lparr>date_year = 2022, date_month = 12, date_day = 30\<rparr> 2023])
   \<and> fst (parse_year_post_2013_split example_start_date example_end_date example_urljoin
            ([node_regular] @ node_previous_year # [node_supplement]) 2023)
       = fst (parse_year_post_2013_split example_start_date example_end_date example_urljoin
            ([node_regular] @ [node_supplement]) 2023)
   \<and> gazette_3930 \<in> set (fst (parse_year_post_2013_split example_start_date example_end_date
            example_urljoin [node_regular, node_previous_year] 2023))
   \<and> (\<exists>d'. item_date gazette_3930 = Some d' \<and> date_year d' = 2023)"
proof -
  have g: "gazette_3930 \<in> set (fst (parse_year_post_2013_split example_start_date example_end_date
            example_urljoin [node_regular, node_previous_year] 2023))"
    by (simp add: parse_year_regular)
  note t = wrong_year_skipped [of node_previous_year
      "\<lparr>date_year = 2022, date_month = 12, date_day = 30\<rparr>" 2023
      example_start_date example_end_date example_urljoin "([], [])" "[]"
      "[node_regular]" "[node_supplement]" "[node_regular, node_previous_year]"]
  have a: "parse_node example_start_date example_end_date example_urljoin 2023 ([], []) node_previous_year
       = Inr ([], [WarningWrongYear \<lparr>date_year = 2022, date_month = 12, date_day = 30\<rparr> 2023])"
    using t embedded_date_previous_year by simp
  have b: "fst (parse_year_post_2013_split example_start_date example_end_date example_urljoin
            ([node_regular] @ node_previous_year # [node_supplement]) 2023)
       = fst (parse_year_post_2013_split example_start_date example_end_date example_urljoin
            ([node_regular] @ [node_supplement]) 2023)"
    using t embedded_date_previous_year by simp
  have c: "\<exists>d'. item_date gazette_3930 = Some d' \<and> date_year d' = 2023"
    using t g by blast
  show ?thesis using embedded_date_previous_year a b g c by (intro conjI)
qed

section \<open>Properties of the matcher\<close>

lemma give_back_None_iff:
  "give_back it items s k = None \<longleftrightarrow>
     (\<forall>j. fst (snd it) \<le> j \<and> j \<le> k \<longrightarrow> match_items items (drop j s) = None)"
proof (induction k)
  case 0
  show ?case
    by (subst give_back.simps) (auto split: option.splits)
next
  case (Suc k)
  show ?case
  proof (cases "Suc k < fst (snd it)")
    case True
    then show ?thesis by (subst give_back.simps) auto
  next
    case False
    show ?thesis
    proof (cases "match_items items (drop (Suc k) s)")
      case (Some segs)
      have "give_back it items s (Suc k) \<noteq> None"
        using False Some by (subst give_back.simps) simp
      moreover have "\<not> (\<forall>j. fst (snd it) \<le> j \<and> j \<le> Suc k
          \<longrightarrow> match_items items (drop j s) = None)"
        using False Some by (auto intro!: exI [of _ "Suc k"])
      ultimately show ?thesis by blast
    next
      case None
      have "give_back it items s (Suc k) = give_back it items s k"
        using False None by (subst give_back.simps) simp
      moreover have "(\<forall>j. fst (snd it) \<le> j \<and> j \<le> Suc k \<longrightarrow> match_items items (drop j s) = None)
          \<longleftrightarrow> (\<forall>j. fst (snd it) \<le> j \<and> j \<le> k \<longrightarrow> match_items items (drop j s) = None)"
        using None by (metis le_Suc_eq)
      ultimately show ?thesis using Suc.IH by simp
    qed
  qed
qed

lemma length_takeWhile_ge:
  "j \<le> length (takeWhile P s) \<longleftrightarrow> j \<le> length s \<and> (\<forall>c \<in> set (take j s). P c)"
proof (induction s arbitrary: j)
  case Nil
  then show ?case by simp
next
  case (Cons c s)
  then show ?case by (cases j) auto
qed

lemma le_greatest:
  "j \<le> greatest (cls, least, most) s \<longleftrightarrow>
     j \<le> length s \<and> (\<forall>c \<in> set (take j s). cls c)
     \<and> (case most of None \<Rightarrow> True | Some m \<Rightarrow> j \<le> m)"
  by (auto simp: greatest_def Let_def length_takeWhile_ge split: option.splits)

lemma match_items_Cons_iff:
  "match_items ((cls, least, most) # items) s \<noteq> None \<longleftrightarrow>
     (\<exists>seg rest. s = seg @ rest \<and> seg_ok (cls, least, most) seg \<and> match_items items rest \<noteq> None)"
proof
  assume "match_items ((cls, least, most) # items) s \<noteq> None"
  then obtain j where j: "least \<le> j" "j \<le> greatest (cls, least, most) s"
    and m: "match_items items (drop j s) \<noteq> None"
    using give_back_None_iff [of "(cls, least, most)" items s "greatest (cls, least, most) s"]
    by auto
  from j(2) have "j \<le> length s" "\<forall>c \<in> set (take j s). cls c"
    "case most of None \<Rightarrow> True | Some m \<Rightarrow> j \<le> m"
    by (simp_all add: le_greatest)
  then have "seg_ok (cls, least, most) (take j s)"
    using j(1) by (auto simp: seg_ok_def split: option.splits)
  moreover have "s = take j s @ drop j s" by simp
  ultimately show "\<exists>seg rest. s = seg @ rest \<and> seg_ok (cls, least, most) seg
      \<and> match_items items rest \<noteq> None"
    using m by blast
next
  assume "\<exists>seg rest. s = seg @ rest \<and> seg_ok (cls, least, most) seg \<and> match_items items rest \<noteq> None"
  then obtain seg rest where s: "s = seg @ rest" and ok: "seg_ok (cls, least, most) seg"
    and m: "match_items items rest \<noteq> None" by blast
  have "length seg \<le> greatest (cls, least, most) s"
    using ok by (auto simp: le_greatest seg_ok_def s split: option.splits)
  moreover have "least \<le> length seg" using ok by (simp add: seg_ok_def)
  moreover have "match_items items (drop (length seg) s) \<noteq> None" using m by (simp add: s)
  ultimately show "match_items ((cls, least, most) # items) s \<noteq> None"
    using give_back_None_iff [of "(cls, least, most)" items s "greatest (cls, least, most) s"]
    by auto
qed

text \<open>The matcher finds a match exactly when the items span a prefix of the text.\<close>

lemma match_items_iff:
  "match_items items s \<noteq> None \<longleftrightarrow> (\<exists>mid rest. s = mid @ rest \<and> spans items mid)"
proof (induction items arbitrary: s)
  case Nil
  show ?case by (simp add: spans_def)
next
  case (Cons it items)
  obtain cls least most where it: "it = (cls, least, most)" by (cases it) auto
  show ?case
  proof
    assume "match_items (it # items) s \<noteq> None"
    then obtain seg rest where s: "s = seg @ rest" and ok: "seg_ok it seg"
      and "match_items items rest \<noteq> None"
      unfolding it match_items_Cons_iff by blast
    then obtain mid rest' where r: "rest = mid @ rest'" and sp: "spans items mid"
      using Cons.IH by blast
    from sp obtain segs where "list_all2 seg_ok items segs" "concat segs = mid"
      by (auto simp: spans_def)
    then have "spans (it # items) (seg @ mid)"
      using ok unfolding spans_def by (intro exI [of _ "seg # segs"]) simp
    then show "\<exists>mid rest. s = mid @ rest \<and> spans (it # items) mid"
      using s r by (intro exI [of _ "seg @ mid"] exI [of _ rest']) simp
  next
    assume "\<exists>mid rest. s = mid @ rest \<and> spans (it # items) mid"
    then obtain mid rest segs where s: "s = mid @ rest"
      and la: "list_all2 seg_ok (it # items) segs" and c: "concat segs = mid"
      by (auto simp: spans_def)
    from la obtain seg segs' where segs: "segs = seg # segs'" and ok: "seg_ok it seg"
      and la': "list_all2 seg_ok items segs'"
      by (cases segs) auto
    have "spans items (concat segs')" using la' by (auto simp: spans_def)
    then have "match_items items (concat segs' @ rest) \<noteq> None"
      using Cons.IH by blast
    moreover have "s = seg @ (concat segs' @ rest)" using s c segs by simp
    ultimately show "match_items (it # items) s \<noteq> None"
      unfolding it match_items_Cons_iff using ok it by blast
  qed
qed

lemma first_alternative_iff:
  "first_alternative alternatives s \<noteq> None \<longleftrightarrow>
     (\<exists>items \<in> set alternatives. match_items items s \<noteq> None)"
  by (induction alternatives) (auto split: option.splits)

lemma regex_search_iff:
  "regex_search alternatives s \<noteq> None \<longleftrightarrow>
     (\<exists>pre t. s = pre @ t \<and> first_alternative alternatives t \<noteq> None)"
proof (induction s)
  case Nil
  then show ?case by simp
next
  case (Cons c s)
  show ?case
  proof
    assume "regex_search alternatives (c # s) \<noteq> None"
    then consider "first_alternative alternatives (c # s) \<noteq> None"
      | "regex_search alternatives s \<noteq> None"
      by (auto split: option.splits)
    then show "\<exists>pre t. c # s = pre @ t \<and> first_alternative alternatives t \<noteq> None"
    proof cases
      case 1
      then show ?thesis by (intro exI [of _ "[]"] exI [of _ "c # s"]) simp
    next
      case 2
      then obtain pre t where "s = pre @ t" "first_alternative alternatives t \<noteq> None"
        using Cons.IH by blast
      then show ?thesis by (intro exI [of _ "c # pre"] exI [of _ t]) simp
    qed
  next
    assume "\<exists>pre t. c # s = pre @ t \<and> first_alternative alternatives t \<noteq> None"
    then obtain pre t where p: "c # s = pre @ t" and f: "first_alternative alternatives t \<noteq> None"
      by blast
    show "regex_search alternatives (c # s) \<noteq> None"
    proof (cases pre)
      case Nil
      then show ?thesis using p f by (auto split: option.splits)
    next
      case (Cons c' pre')
      then have "s = pre' @ t" using p by simp
      then have "regex_search alternatives s \<noteq> None" using f Cons.IH by blast
      then show ?thesis by (auto split: option.splits)
    qed
  qed
qed

text \<open>A search succeeds exactly when some alternative spans a part of the text.\<close>

lemma regex_search_spans:
  "regex_search alternatives s \<noteq> None \<longleftrightarrow>
     (\<exists>items \<in> set alternatives. \<exists>pre mid post. s = pre @ mid @ post \<and> spans items mid)"
  unfolding regex_search_iff first_alternative_iff match_items_iff by blast

lemma spans_Nil [simp]: "spans [] mid \<longleftrightarrow> mid = []"
  by (auto simp: spans_def)

lemma spans_Cons:
  "spans (it # items) mid \<longleftrightarrow>
     (\<exists>seg m. mid = seg @ m \<and> seg_ok it seg \<and> spans items m)"
proof
  assume "spans (it # items) mid"
  then obtain segments where la: "list_all2 seg_ok (it # items) segments"
    and c: "concat segments = mid" by (auto simp: spans_def)
  from la obtain seg segs where "segments = seg # segs" "seg_ok it seg" "list_all2 seg_ok items segs"
    by (cases segments) auto
  then have "mid = seg @ concat segs \<and> seg_ok it seg \<and> spans items (concat segs)"
    using c by (auto simp: spans_def)
  then show "\<exists>seg m. mid = seg @ m \<and> seg_ok it seg \<and> spans items m" by blast
next
  assume "\<exists>seg m. mid = seg @ m \<and> seg_ok it seg \<and> spans items m"
  then obtain seg m segs where "mid = seg @ m" "seg_ok it seg" "list_all2 seg_ok items segs"
    "concat segs = m" by (auto simp: spans_def)
  then have "list_all2 seg_ok (it # items) (seg # segs) \<and> concat (seg # segs) = mid" by simp
  then show "spans (it # items) mid" unfolding spans_def by blast
qed

lemma spans_append:
  "spans (xs @ ys) mid \<longleftrightarrow> (\<exists>m1 m2. mid = m1 @ m2 \<and> spans xs m1 \<and> spans ys m2)"
proof (induction xs arbitrary: mid)
  case Nil
  then show ?case by simp
next
  case (Cons it xs)
  show ?case
    unfolding append_Cons spans_Cons Cons.IH
    by (metis append.assoc)
qed

lemma seg_ok_once: "seg_ok (once cls) seg \<longleftrightarrow> (\<exists>c. seg = [c] \<and> cls c)"
  by (auto simp: seg_ok_def once_def length_Suc_conv le_Suc_eq)

lemma seg_ok_optional:
  "seg_ok (optional cls) seg \<longleftrightarrow> seg = [] \<or> seg_ok (once cls) seg"
  by (auto simp: seg_ok_def once_def optional_def le_Suc_eq)

lemma spans_optional:
  "spans (xs @ optional cls # ys) mid \<longleftrightarrow>
     spans (xs @ ys) mid \<or> spans (xs @ once cls # ys) mid"
proof -
  have "spans (optional cls # ys) m \<longleftrightarrow> spans ys m \<or> spans (once cls # ys) m" for m
  proof
    assume "spans (optional cls # ys) m"
    then obtain seg m' where m: "m = seg @ m'" and ok: "seg = [] \<or> seg_ok (once cls) seg"
      and sp: "spans ys m'"
      unfolding spans_Cons seg_ok_optional by blast
    from ok show "spans ys m \<or> spans (once cls # ys) m"
    proof
      assume "seg = []"
      then show ?thesis using m sp by simp
    next
      assume "seg_ok (once cls) seg"
      then have "spans (once cls # ys) m" unfolding spans_Cons using m sp by blast
      then show ?thesis ..
    qed
  next
    assume "spans ys m \<or> spans (once cls # ys) m"
    then show "spans (optional cls # ys) m"
    proof
      assume "spans ys m"
      then have "m = [] @ m \<and> seg_ok (optional cls) [] \<and> spans ys m"
        by (simp add: seg_ok_optional)
      then show ?thesis unfolding spans_Cons by blast
    next
      assume "spans (once cls # ys) m"
      then show ?thesis unfolding spans_Cons seg_ok_optional by blast
    qed
  qed
  then show ?thesis unfolding spans_append by blast
qed

lemma spans_word: "spans (word_ignorecase w) mid \<longleftrightarrow> list_all2 ignorecase w mid"
proof (induction w arbitrary: mid)
  case Nil
  then show ?case by (simp add: word_ignorecase_def)
next
  case (Cons p w)
  have w: "word_ignorecase (p # w) = once (ignorecase p) # word_ignorecase w"
    by (simp add: word_ignorecase_def)
  show ?case
  proof
    assume "spans (word_ignorecase (p # w)) mid"
    then obtain c m where "mid = [c] @ m" "ignorecase p c" "spans (word_ignorecase w) m"
      unfolding w spans_Cons seg_ok_once by blast
    then show "list_all2 ignorecase (p # w) mid" using Cons.IH by simp
  next
    assume "list_all2 ignorecase (p # w) mid"
    then obtain c m where "mid = c # m" "ignorecase p c" "list_all2 ignorecase w m"
      by (auto simp: list_all2_Cons1)
    then have "mid = [c] @ m \<and> seg_ok (once (ignorecase p)) [c] \<and> spans (word_ignorecase w) m"
      using Cons.IH by (simp add: seg_ok_once)
    then show "spans (word_ignorecase (p # w)) mid" unfolding w spans_Cons by blast
  qed
qed

lemma word_ignorecase_append:
  "word_ignorecase (a @ b) = word_ignorecase a @ word_ignorecase b"
  by (simp add: word_ignorecase_def)

lemma word_ignorecase_single: "once (ignorecase p) # items = word_ignorecase [p] @ items"
  by (simp add: word_ignorecase_def)

lemma spans_supplement:
  "spans (word_ignorecase (u ''su'') @ [optional (ignorecase 109)] @ word_ignorecase (u ''pl'')
        @ [optional (ignorecase 101)] @ word_ignorecase (u ''mento'')) mid
   \<longleftrightarrow> list_all2 ignorecase (u ''suplemento'') mid \<or> list_all2 ignorecase (u ''sumplemento'') mid
     \<or> list_all2 ignorecase (u ''suplmento'') mid \<or> list_all2 ignorecase (u ''sumplmento'') mid"
proof -
  let ?su = "word_ignorecase (u ''su'')" and ?pl = "word_ignorecase (u ''pl'')"
  let ?mento = "word_ignorecase (u ''mento'')"
  let ?m = "ignorecase 109" and ?e = "ignorecase 101"
  have 1: "spans (?su @ [optional ?m] @ ?pl @ [optional ?e] @ ?mento) mid \<longleftrightarrow>
      spans (?su @ ?pl @ optional ?e # ?mento) mid
      \<or> spans (?su @ once ?m # ?pl @ optional ?e # ?mento) mid"
    using spans_optional [of ?su ?m "?pl @ optional ?e # ?mento" mid] by simp
  have 2: "spans (?su @ ?pl @ optional ?e # ?mento) mid \<longleftrightarrow>
      spans (?su @ ?pl @ ?mento) mid \<or> spans (?su @ ?pl @ once ?e # ?mento) mid"
    using spans_optional [of "?su @ ?pl" ?e ?mento mid] by simp
  have 3: "spans (?su @ once ?m # ?pl @ optional ?e # ?mento) mid \<longleftrightarrow>
      spans (?su @ once ?m # ?pl @ ?mento) mid \<or> spans (?su @ once ?m # ?pl @ once ?e # ?mento) mid"
    using spans_optional [of "?su @ once ?m # ?pl" ?e ?mento mid] by simp
  have a: "?su @ ?pl @ ?mento = word_ignorecase (u ''suplmento'')"
    by (simp add: word_ignorecase_def u_def)
  have b: "?su @ ?pl @ once ?e # ?mento = word_ignorecase (u ''suplemento'')"
    by (simp add: word_ignorecase_def u_def)
  have c: "?su @ once ?m # ?pl @ ?mento = word_ignorecase (u ''sumplmento'')"
    by (simp add: word_ignorecase_def u_def)
  have d: "?su @ once ?m # ?pl @ once ?e # ?mento = word_ignorecase (u ''sumplemento'')"
    by (simp add: word_ignorecase_def u_def)
  show ?thesis
    unfolding 1 2 3 a b c d spans_word by blast
qed

lemma part_of_five:
  "(\<exists>pre mid post. s = pre @ mid @ post \<and> ((P a mid \<or> P b mid \<or> P c mid \<or> P d mid) \<or> P e mid))
   \<longleftrightarrow> (\<exists>w \<in> set [a, b, c, d, e]. \<exists>pre mid post. s = pre @ mid @ post \<and> P w mid)"
  by (simp only: list.set bex_simps insert_iff empty_iff) blast

lemma part_of_two:
  "(\<exists>items \<in> set [x, y]. \<exists>pre mid post. s = pre @ mid @ post \<and> Q items mid)
   \<longleftrightarrow> (\<exists>pre mid post. s = pre @ mid @ post \<and> (Q x mid \<or> Q y mid))"
  by (simp only: list.set bex_simps insert_iff empty_iff) blast

lemma is_extra_edition_search_iff:
  "is_extra_edition_search s \<longleftrightarrow> (\<exists>w \<in> set extra_edition_words. contains_ignorecase w s)"
  unfolding is_extra_edition_search_def regex_search_spans IS_EXTRA_EDITION_PATTERN_def
    part_of_two spans_supplement spans_word extra_edition_words_def contains_ignorecase_def
  by (rule part_of_five)

lemma give_back_Some:
  "give_back it items s k = Some r \<Longrightarrow>
     \<exists>j segments. fst (snd it) \<le> j \<and> j \<le> k \<and> match_items items (drop j s) = Some segments
        \<and> r = take j s # segments"
proof (induction k)
  case 0
  then show ?case
    by (subst (asm) give_back.simps) (auto split: if_splits option.splits)
next
  case (Suc k)
  have least: "\<not> Suc k < fst (snd it)"
    using Suc.prems by (subst (asm) give_back.simps) (auto split: if_splits)
  show ?case
  proof (cases "match_items items (drop (Suc k) s)")
    case (Some segments)
    then have "r = take (Suc k) s # segments"
      using Suc.prems least by (subst (asm) give_back.simps) auto
    then show ?thesis using Some least by (intro exI [of _ "Suc k"] exI [of _ segments]) auto
  next
    case None
    then have "give_back it items s k = Some r"
      using Suc.prems least by (subst (asm) give_back.simps) auto
    then obtain j segments where "fst (snd it) \<le> j" "j \<le> k"
      "match_items items (drop j s) = Some segments" "r = take j s # segments"
      using Suc.IH by blast
    then show ?thesis by (intro exI [of _ j] exI [of _ segments]) simp
  qed
qed

text \<open>What the matcher returns is a segment for every item, and together a prefix.\<close>

lemma match_items_Some:
  "match_items items s = Some segments \<Longrightarrow>
     list_all2 seg_ok items segments \<and> (\<exists>rest. s = concat segments @ rest)"
proof (induction items arbitrary: s segments)
  case Nil
  then show ?case by simp
next
  case (Cons it items)
  obtain cls least most where it: "it = (cls, least, most)" by (cases it) auto
  from Cons.prems have "give_back it items s (greatest it s) = Some segments" by simp
  from give_back_Some [OF this] obtain j segs where j: "least \<le> j" "j \<le> greatest it s"
    and m: "match_items items (drop j s) = Some segs" and r: "segments = take j s # segs"
    by (auto simp: it)
  from j(2) have "j \<le> length s" "\<forall>c \<in> set (take j s). cls c"
    "case most of None \<Rightarrow> True | Some m \<Rightarrow> j \<le> m"
    by (simp_all add: it le_greatest)
  then have ok: "seg_ok it (take j s)"
    using j(1) by (auto simp: seg_ok_def it split: option.splits)
  from Cons.IH [OF m] obtain rest where "list_all2 seg_ok items segs" "drop j s = concat segs @ rest"
    by blast
  moreover from this have "s = concat (take j s # segs) @ rest"
    by (metis append.assoc append_take_drop_id concat.simps(2))
  ultimately show ?case using ok r by auto
qed

lemma first_alternative_Some:
  "first_alternative alternatives s = Some segments \<Longrightarrow>
     \<exists>items \<in> set alternatives. match_items items s = Some segments"
  by (induction alternatives) (auto split: option.splits)

lemma regex_search_Some:
  "regex_search alternatives s = Some segments \<Longrightarrow>
     \<exists>pre t. s = pre @ t \<and> (\<exists>items \<in> set alternatives. match_items items t = Some segments)"
proof (induction s)
  case Nil
  then show ?case using first_alternative_Some by fastforce
next
  case (Cons c s)
  show ?case
  proof (cases "first_alternative alternatives (c # s)")
    case (Some r)
    then have "first_alternative alternatives (c # s) = Some segments" using Cons.prems by simp
    from first_alternative_Some [OF this] show ?thesis
      by (intro exI [of _ "[]"] exI [of _ "c # s"]) simp
  next
    case None
    then have "regex_search alternatives s = Some segments" using Cons.prems by simp
    from Cons.IH [OF this] obtain pre t where "s = pre @ t"
      "\<exists>items \<in> set alternatives. match_items items t = Some segments" by blast
    then show ?thesis by (intro exI [of _ "c # pre"] exI [of _ t]) simp
  qed
qed

section \<open>Properties of the extra-edition classification\<close>

text \<open>
  C3. A node that passes the checks is registered with the flag
  \<open>is_extra_edition\<close> equal to the disjunction of the pattern search on its free-text
  segment and on its normalized URL; the search succeeds on a text exactly when the text
  contains, ignoring case, the word for supplement, one of its misspellings or the word
  for extraordinary; and the flag of every emitted item is that disjunction for one of the
  page's nodes.
\<close>

theorem extra_edition_or_semantics:
  "(embedded_date n = Some (Inr d) \<and> date_year d = year \<and> date_le sd d \<and> date_le d ed \<longrightarrow>
      parse_node sd ed uj year st n =
        Inr (validate_uniqueness st d (node_edition_number n)
               (is_extra_edition_search (node_extra_text n) \<or> is_extra_edition_search (node_url uj n))
               (node_extra_text n) (node_url uj n)))
   \<and> (is_extra_edition_search s \<longleftrightarrow> (\<exists>w \<in> set extra_edition_words. contains_ignorecase w s))
   \<and> (\<forall>g \<in> set (fst (parse_year_post_2013_split sd ed uj nodes year)).
         \<exists>n \<in> set nodes. \<exists>d'.
           embedded_date n = Some (Inr d') \<and> item_date g = Some d'
           \<and> item_edition_number g = Some (node_edition_number n)
           \<and> item_is_extra_edition g
               = Some (is_extra_edition_search (node_extra_text n)
                       \<or> is_extra_edition_search (node_url uj n)))"
proof (intro conjI impI ballI)
  assume "embedded_date n = Some (Inr d) \<and> date_year d = year \<and> date_le sd d \<and> date_le d ed"
  then show "parse_node sd ed uj year st n =
        Inr (validate_uniqueness st d (node_edition_number n)
               (is_extra_edition_search (node_extra_text n) \<or> is_extra_edition_search (node_url uj n))
               (node_extra_text n) (node_url uj n))"
    by (simp add: parse_node_registers)
next
  show "is_extra_edition_search s \<longleftrightarrow> (\<exists>w \<in> set extra_edition_words. contains_ignorecase w s)"
    by (rule is_extra_edition_search_iff)
next
  fix g assume g: "g \<in> set (fst (parse_year_post_2013_split sd ed uj nodes year))"
  let ?page = "fst (fst (parse_nodes sd ed uj year ([], []) nodes))"
  from g obtain k bt where in_page: "(k, bt) \<in> set ?page" and g_def: "g = gazette_of (k, bt)"
    by (auto simp: parse_year_result split: option.splits)
  have "k \<in> fst ` set ?page" using in_page by force
  then obtain n where n: "n \<in> set nodes" and "registered_by sd ed uj year n k"
    using parse_nodes_keys [of k sd ed uj year "([], [])" nodes] by auto
  then obtain d' where "embedded_date n = Some (Inr d')"
    and "k = (d', node_edition_number n,
              is_extra_edition_search (node_extra_text n) \<or> is_extra_edition_search (node_url uj n))"
    by (auto simp: registered_by_def)
  then have "embedded_date n = Some (Inr d') \<and> item_date g = Some d'
           \<and> item_edition_number g = Some (node_edition_number n)
           \<and> item_is_extra_edition g
               = Some (is_extra_edition_search (node_extra_text n)
                       \<or> is_extra_edition_search (node_url uj n))"
    by (simp add: g_def gazette_of_def)
  then show "\<exists>n \<in> set nodes. \<exists>d'.
           embedded_date n = Some (Inr d') \<and> item_date g = Some d'
           \<and> item_edition_number g = Some (node_edition_number n)
           \<and> item_is_extra_edition g
               = Some (is_extra_edition_search (node_extra_text n)
                       \<or> is_extra_edition_search (node_url uj n))"
    using n by blast
qed

lemma split_search_supplement:
  "split_gazette_text_search (strip (node_text node_supplement))
     = Some (u ''3930'', u ''SUPLEMENTO'', u ''2023'', u ''01'', u ''10'')"
  by (simp add: regex_eval node_supplement_def)

lemma embedded_date_supplement:
  "embedded_date node_supplement = Some (Inr \<lparr>date_year = 2023, date_month = 1, date_day = 10\<rparr>)"
  by (simp add: embedded_date_def split_search_supplement py_int_def u_def is_digit_def
      mk_date_def days_in_month_def)

lemma node_supplement_fields:
  "node_edition_number node_supplement = u ''3930''"
  "node_extra_text node_supplement = u ''SUPLEMENTO''"
  by (simp_all add: node_edition_number_def node_extra_text_def split_search_supplement)
     (simp add: strip_def u_def py_isspace_def)

lemma url_supplement:
  "node_url example_urljoin node_supplement = u ''https://diariooficialjp.com.br/pdf/2023-01-10-b.pdf''"
  by (simp add: node_url_def example_urljoin_def node_supplement_def replace_def strip_def u_def
      py_isspace_def)

lemma extra_text_supplement: "is_extra_edition_search (u ''SUPLEMENTO'') = True"
  by (simp add: regex_eval)

lemma no_extra_url_supplement:
  "is_extra_edition_search (u ''https://diariooficialjp.com.br/pdf/2023-01-10-b.pdf'') = False"
  by (simp add: regex_eval)

lemma parse_node_supplement:
  "parse_node example_start_date example_end_date example_urljoin 2023 ([], []) node_supplement
     = Inr ([((\<lparr>date_year = 2023, date_month = 1, date_day = 10\<rparr>, u ''3930'', True),
              [(u ''SUPLEMENTO'', {|u ''https://diariooficialjp.com.br/pdf/2023-01-10-b.pdf''|})])], [])"
  by (simp add: parse_node_cases embedded_date_supplement node_supplement_fields url_supplement
      extra_text_supplement no_extra_url_supplement example_start_date_def example_end_date_def
      date_le_def date_less_def validate_uniqueness_def Let_def endswith_def)

lemma parse_year_supplement:
  "parse_year_post_2013_split example_start_date example_end_date example_urljoin
     [node_supplement] 2023 = ([gazette_3930_supplement], [], None)"
proof -
  have "yield_gazettes
        [((\<lparr>date_year = 2023, date_month = 1, date_day = 10\<rparr>, u ''3930'', True),
              [(u ''SUPLEMENTO'', {|u ''https://diariooficialjp.com.br/pdf/2023-01-10-b.pdf''|})])] []
      = ([gazette_3930_supplement], [], None)"
    by code_simp
  then show ?thesis
    by (simp add: parse_year_post_2013_split_def parse_node_supplement)
qed

theorem extra_edition_or_semantics_witness:
  "is_extra_edition_search (node_extra_text node_supplement)
   \<and> \<not> is_extra_edition_search (node_url example_urljoin node_supplement)
   \<and> parse_node example_start_date example_end_date example_urljoin 2023 ([], []) node_supplement
       = Inr ([((\<lparr>date_year = 2023, date_month = 1, date_day = 10\<rparr>, u ''3930'', True),
              [(u ''SUPLEMENTO'', {|u ''https://diariooficialjp.com.br/pdf/2023-01-10-b.pdf''|})])], [])
   \<and> gazette_3930_supplement \<in> set (fst (parse_year_post_2013_split example_start_date
         example_end_date example_urljoin [node_supplement] 2023))
   \<and> item_is_extra_edition gazette_3930_supplement
       = Some (is_extra_edition_search (node_extra_text node_supplement)
               \<or> is_extra_edition_search (node_url example_urljoin node_supplement))"
proof -
  note t = extra_edition_or_semantics [of node_supplement
      "\<lparr>date_year = 2023, date_month = 1, date_day = 10\<rparr>" 2023
      example_start_date example_end_date example_urljoin "([], [])" "[]" "[node_supplement]"]
  have a: "is_extra_edition_search (node_extra_text node_supplement)"
    by (simp add: node_supplement_fields extra_text_supplement)
  have b: "\<not> is_extra_edition_search (node_url example_urljoin node_supplement)"
    by (simp add: url_supplement no_extra_url_supplement)
  have range: "date_le example_start_date \<lparr>date_year = 2023, date_month = 1, date_day = 10\<rparr>"
    "date_le \<lparr>date_year = 2023, date_month = 1, date_day = 10\<rparr> example_end_date"
    by (simp_all add: example_start_date_def example_end_date_def date_le_def date_less_def)
  have "parse_node example_start_date example_end_date example_urljoin 2023 ([], []) node_supplement
      = Inr (validate_uniqueness ([], []) \<lparr>date_year = 2023, date_month = 1, date_day = 10\<rparr>
               (node_edition_number node_supplement)
               (is_extra_edition_search (node_extra_text node_supplement)
                \<or> is_extra_edition_search (node_url example_urljoin node_supplement))
               (node_extra_text node_supplement) (node_url example_urljoin node_supplement))"
    using t embedded_date_supplement range by simp
  then have c: "parse_node example_start_date example_end_date example_urljoin 2023 ([], []) node_supplement
       = Inr ([((\<lparr>date_year = 2023, date_month = 1, date_day = 10\<rparr>, u ''3930'', True),
              [(u ''SUPLEMENTO'', {|u ''https://diariooficialjp.com.br/pdf/2023-01-10-b.pdf''|})])], [])"
    by (simp add: parse_node_supplement)
  have g: "gazette_3930_supplement \<in> set (fst (parse_year_post_2013_split example_start_date
         example_end_date example_urljoin [node_supplement] 2023))"
    by (simp add: parse_year_supplement)
  have e: "item_is_extra_edition gazette_3930_supplement
       = Some (is_extra_edition_search (node_extra_text node_supplement)
               \<or> is_extra_edition_search (node_url example_urljoin node_supplement))"
    using t g by auto
  show ?thesis using a b c g e by (intro conjI)
qed

section \<open>Properties of the storage path\<close>

lemma split_sep_plain: "47 \<notin> set x \<Longrightarrow> split_sep x = [x]"
  by (induction x) auto

lemma split_sep_append:
  "47 \<notin> set x \<Longrightarrow> split_sep (x @ 47 # y) = x # split_sep y"
  by (induction x) (auto simp: split_sep_plain)

lemma components_plain: "plain_segment x \<Longrightarrow> components x = [x]"
  by (simp add: components_def plain_segment_def split_sep_plain)

lemma splitroot_plain: "plain_segment x \<Longrightarrow> splitroot x = ([], x)"
  by (cases x) (auto simp: splitroot_def plain_segment_def)

lemma Path_join_plain: "plain_segment x \<Longrightarrow> Path_join p x = (fst p, snd p @ [x])"
  by (simp add: Path_join_def splitroot_plain components_plain)

lemma Path_three:
  assumes "plain_segment a" and "plain_segment b" and "plain_segment c"
  shows "Path_str (Path [a, b, c]) = a @ u ''/'' @ b @ u ''/'' @ c"
  using assms
  by (simp add: Path_def Path_join_plain Path_str_def u_def plain_segment_def)

lemma Path_name_full:
  assumes "plain_segment base"
  shows "Path_name (Path [u ''full/'' @ base]) = base"
proof -
  have "u ''full/'' @ base = u ''full'' @ 47 # base" by (simp add: u_def)
  then have "split_sep (u ''full/'' @ base) = [u ''full'', base]"
    using assms by (simp add: split_sep_append split_sep_plain plain_segment_def u_def)
  then have "components (u ''full/'' @ base) = [u ''full'', base]"
    using assms by (simp add: components_def plain_segment_def u_def)
  moreover have "splitroot (u ''full/'' @ base) = ([], u ''full/'' @ base)"
    by (simp add: splitroot_def u_def)
  ultimately show ?thesis
    by (simp add: Path_def Path_join_def Path_name_def)
qed

lemma zpad_length [simp]: "length (zpad w n) = w"
  by (induction w arbitrary: n) auto

lemma zpad_digits: "c \<in> set (zpad w n) \<Longrightarrow> 48 \<le> c \<and> c \<le> 57"
  by (induction w arbitrary: n) (auto simp: digit_char_def)

lemma plain_strftime: "plain_segment (strftime_Ymd d)"
proof -
  have "length (strftime_Ymd d) = 10" by (simp add: strftime_Ymd_def u_def)
  moreover have "47 \<notin> set (strftime_Ymd d)"
    using zpad_digits by (fastforce simp: strftime_Ymd_def u_def)
  ultimately show ?thesis by (auto simp: plain_segment_def u_def)
qed

lemma hex_of_length [simp]: "length (hex_of k n) = k"
  by (induction k arbitrary: n) auto

lemma hex_digit_range:
  "m < 16 \<Longrightarrow> (48 \<le> hex_digit m \<and> hex_digit m \<le> 57) \<or> (97 \<le> hex_digit m \<and> hex_digit m \<le> 102)"
  by (auto simp: hex_digit_def)

lemma hex_of_digits:
  "c \<in> set (hex_of k n) \<Longrightarrow> (48 \<le> c \<and> c \<le> 57) \<or> (97 \<le> c \<and> c \<le> 102)"
proof (induction k arbitrary: n)
  case 0
  then show ?case by simp
next
  case (Suc k)
  then consider "c \<in> set (hex_of k (n div 16))" | "c = hex_digit (n mod 16)" by auto
  then show ?case
  proof cases
    case 1
    then show ?thesis by (rule Suc.IH)
  next
    case 2
    then show ?thesis using hex_digit_range [of "n mod 16"] by simp
  qed
qed

lemma plain_hexdigest: "plain_segment (hexdigest w)"
proof -
  have "length (hexdigest w) = 40" by (simp add: hexdigest_def)
  moreover have "47 \<notin> set (hexdigest w)"
    using hex_of_digits [of 47] by (auto simp: hexdigest_def)
  ultimately show ?thesis by (auto simp: plain_segment_def u_def)
qed

lemma rfind_bounds: "rfind c s < int (length s)"
  by (simp add: rfind_def)

lemma plain_name_stem:
  assumes "plain_segment base" and "hd base \<noteq> 46"
  shows "plain_segment (name_stem base)"
proof (cases "0 < rfind 46 base \<and> rfind 46 base < int (length base) - 1")
  case False
  then have "name_stem base = base" by (auto simp: name_stem_def Let_def)
  then show ?thesis using assms(1) by simp
next
  case True
  define i where "i = nat (rfind 46 base)"
  have i: "0 < i" "i < length base" using True by (auto simp: i_def)
  have stem: "name_stem base = take i base" using True by (simp add: name_stem_def Let_def i_def)
  have "take i base \<noteq> []" using i assms(1) by (auto simp: plain_segment_def)
  moreover have "hd (take i base) = hd base" using i by (cases base) (auto simp: take_Suc_conv_app_nth)
  then have "take i base \<noteq> u ''.''" using assms(2) by (auto simp: u_def)
  moreover have "47 \<notin> set (take i base)"
    using assms(1) by (auto simp: plain_segment_def dest: in_set_takeD)
  ultimately show ?thesis by (simp add: stem plain_segment_def)
qed

text \<open>The stem of a name with one extension is the name without it.\<close>

lemma name_stem_extension:
  assumes "stem \<noteq> []" and "ext \<noteq> []" and "46 \<notin> set ext"
  shows "name_stem (stem @ 46 # ext) = stem"
proof -
  have "takeWhile (\<lambda>x. x \<noteq> 46) (rev (stem @ 46 # ext)) = rev ext"
    using assms(3) by (auto simp: takeWhile_tail takeWhile_eq_all_conv)
  then have "rfind 46 (stem @ 46 # ext) = int (length stem)"
    by (simp add: rfind_def)
  then show ?thesis using assms by (simp add: name_stem_def Let_def)
qed

lemma name_stem_no_extension: "46 \<notin> set name \<Longrightarrow> name_stem name = name"
  by (simp add: name_stem_def rfind_def)

text \<open>The segments the file-name pattern can take.\<close>

lemma seg_ok_plus: "seg_ok (plus cls) seg \<longleftrightarrow> seg \<noteq> [] \<and> (\<forall>c \<in> set seg. cls c)"
  by (auto simp: seg_ok_def plus_def Suc_le_eq)

lemma literal_segments:
  "list_all2 seg_ok (map (\<lambda>p. once (\<lambda>c. c = p)) w @ items) segments \<longleftrightarrow>
     (\<exists>segs. segments = map (\<lambda>c. [c]) w @ segs \<and> list_all2 seg_ok items segs)"
proof (induction w arbitrary: segments)
  case Nil
  then show ?case by simp
next
  case (Cons p w)
  show ?case
    by (cases segments) (auto simp: seg_ok_once Cons.IH)
qed

lemma filename_pattern_segments:
  "list_all2 seg_ok SP_RIBEIRAO_PRETO_PDF_FILENAME segments \<longleftrightarrow>
     (\<exists>fn. segments = map (\<lambda>c. [c]) (''filename='' @ [CHR 0x22]) @ [fn, [CHR 0x22]]
           \<and> fn \<noteq> [] \<and> CHR 0x22 \<notin> set fn)"
  unfolding SP_RIBEIRAO_PRETO_PDF_FILENAME_def literal_segments
  by (auto simp: list_all2_Cons1 seg_ok_once seg_ok_plus)

lemma filename_pattern_spans:
  "spans SP_RIBEIRAO_PRETO_PDF_FILENAME mid \<longleftrightarrow>
     (\<exists>fn. mid = ''filename='' @ [CHR 0x22] @ fn @ [CHR 0x22] \<and> fn \<noteq> [] \<and> CHR 0x22 \<notin> set fn)"
  unfolding spans_def filename_pattern_segments by auto

text \<open>
  The search finds a file name exactly in a header with a quoted, non-empty
  \<open>filename=\<close> component, and the name it returns is such a component.
\<close>

lemma pdf_filename_search_iff:
  "pdf_filename_search cd \<noteq> None \<longleftrightarrow>
     (\<exists>pre fn post. cd = pre @ (''filename='' @ [CHR 0x22] @ fn @ [CHR 0x22]) @ post
        \<and> fn \<noteq> [] \<and> CHR 0x22 \<notin> set fn)"
proof -
  have "pdf_filename_search cd \<noteq> None \<longleftrightarrow> regex_search [SP_RIBEIRAO_PRETO_PDF_FILENAME] cd \<noteq> None"
    by (simp add: pdf_filename_search_def split: option.splits)
  also have "\<dots> \<longleftrightarrow> (\<exists>pre mid post. cd = pre @ mid @ post \<and> spans SP_RIBEIRAO_PRETO_PDF_FILENAME mid)"
    unfolding regex_search_spans by simp
  also have "\<dots> \<longleftrightarrow> (\<exists>pre fn post. cd = pre @ (''filename='' @ [CHR 0x22] @ fn @ [CHR 0x22]) @ post
        \<and> fn \<noteq> [] \<and> CHR 0x22 \<notin> set fn)"
    unfolding filename_pattern_spans by blast
  finally show ?thesis .
qed

lemma pdf_filename_search_Some:
  assumes "pdf_filename_search cd = Some fn"
  shows "\<exists>pre post. cd = pre @ (''filename='' @ [CHR 0x22] @ fn @ [CHR 0x22]) @ post
           \<and> fn \<noteq> [] \<and> CHR 0x22 \<notin> set fn"
proof -
  from assms obtain segments where s: "regex_search [SP_RIBEIRAO_PRETO_PDF_FILENAME] cd = Some segments"
    and fn: "fn = segments ! 10"
    by (auto simp: pdf_filename_search_def split: option.splits)
  from regex_search_Some [OF s] obtain pre t where cd: "cd = pre @ t"
    and m: "match_items SP_RIBEIRAO_PRETO_PDF_FILENAME t = Some segments" by auto
  from match_items_Some [OF m] obtain post where
    la: "list_all2 seg_ok SP_RIBEIRAO_PRETO_PDF_FILENAME segments" and t: "t = concat segments @ post"
    by blast
  from la obtain fn' where
    segs: "segments = map (\<lambda>c. [c]) (''filename='' @ [CHR 0x22]) @ [fn', [CHR 0x22]]"
    and fn': "fn' \<noteq> []" "CHR 0x22 \<notin> set fn'"
    unfolding filename_pattern_segments by blast
  have "segments ! 10 = fn'" by (simp add: segs)
  moreover have "concat segments = ''filename='' @ [CHR 0x22] @ fn' @ [CHR 0x22]"
    by (simp add: segs)
  ultimately show ?thesis using cd t fn fn' by (intro exI [of _ pre] exI [of _ post]) simp
qed

text \<open>
  The digits of a padded number read back as the number, so the three groups of the date
  string are the year, the month and the day of the date.
\<close>

lemma zpad_value:
  "foldl (\<lambda>n c. 10 * n + (int c - 48)) 0 (zpad w n) = int (n mod 10 ^ w)"
proof (induction w arbitrary: n)
  case 0
  then show ?case by simp
next
  case (Suc w)
  have "n mod (10 * 10 ^ w) = 10 * (n div 10 mod 10 ^ w) + n mod 10"
    by (rule mod_mult2_eq)
  then show ?case by (simp add: Suc digit_char_def)
qed

lemma py_int_zpad:
  assumes "0 < w" and "n < 10 ^ w"
  shows "py_int (zpad w n) = Inr (int n)"
proof -
  have "zpad w n \<noteq> []" using assms(1) by (cases w) auto
  moreover have "list_all is_digit (zpad w n)"
    using zpad_digits by (auto simp: list_all_iff is_digit_def)
  ultimately show ?thesis using assms(2) by (simp add: py_int_def zpad_value)
qed

lemma days_in_month_le: "days_in_month y m \<le> 31"
  by (simp add: days_in_month_def)

lemma strftime_fields:
  assumes "mk_date (date_year d) (date_month d) (date_day d) = Inr d"
  shows "\<exists>y m dd. strftime_Ymd d = y @ u ''-'' @ m @ u ''-'' @ dd
      \<and> length y = 4 \<and> length m = 2 \<and> length dd = 2
      \<and> py_int y = Inr (date_year d) \<and> py_int m = Inr (date_month d)
      \<and> py_int dd = Inr (date_day d)"
proof -
  from assms have v: "1 \<le> date_year d" "date_year d \<le> 9999" "1 \<le> date_month d"
    "date_month d \<le> 12" "1 \<le> date_day d"
    "date_day d \<le> days_in_month (date_year d) (date_month d)"
    by (auto simp: mk_date_def split: if_splits)
  have day: "date_day d \<le> 31"
    using v(6) days_in_month_le [of "date_year d" "date_month d"] by linarith
  have "py_int (zpad 4 (nat (date_year d))) = Inr (date_year d)"
    using v by (simp add: py_int_zpad)
  moreover have "py_int (zpad 2 (nat (date_month d))) = Inr (date_month d)"
    using v by (simp add: py_int_zpad)
  moreover have "py_int (zpad 2 (nat (date_day d))) = Inr (date_day d)"
    using v day by (simp add: py_int_zpad)
  ultimately show ?thesis
    unfolding strftime_Ymd_def
    by (intro exI [of _ "zpad 4 (nat (date_year d))"] exI [of _ "zpad 2 (nat (date_month d))"]
      exI [of _ "zpad 2 (nat (date_day d))"]) simp
qed

lemma hexdigest_shape:
  "length (hexdigest w) = 40
   \<and> (\<forall>c \<in> set (hexdigest w). (48 \<le> c \<and> c \<le> 57) \<or> (97 \<le> c \<and> c \<le> 102))"
  using hex_of_digits by (auto simp: hexdigest_def)

text \<open>Unfolding the padding and the hexadecimal form at a numeral width.\<close>

lemma hex_of_numeral:
  "hex_of (numeral k) n = hex_of (pred_numeral k) (n div 16) @ [hex_digit (n mod 16)]"
proof -
  have "numeral k = Suc (pred_numeral k)" by (rule numeral_eq_Suc)
  then show ?thesis by (simp only: hex_of.simps)
qed

lemma zpad_numeral:
  "zpad (numeral k) n = zpad (pred_numeral k) (n div 10) @ [digit_char n]"
proof -
  have "numeral k = Suc (pred_numeral k)" by (rule numeral_eq_Suc)
  then show ?thesis by (simp only: zpad.simps)
qed

section \<open>Properties of \<open>file_path\<close>\<close>

lemma plain_designated: "plain_segment (u ''3543402'')"
  by (simp add: plain_segment_def u_def)

lemma url_based_other:
  assumes "territory_id \<noteq> u ''3543402''" and "plain_segment territory_id"
    and "super_file_path request = u ''full/'' @ base" and "plain_segment base"
  shows "url_based_file_path super_file_path request territory_id (strftime_Ymd d)
         = territory_id @ u ''/'' @ strftime_Ymd d @ u ''/'' @ base"
  using assms by (simp add: url_based_file_path_def Path_name_full Path_three plain_strftime)

lemma url_based_designated:
  assumes "super_file_path request = u ''full/'' @ base" and "plain_segment base" and "hd base \<noteq> 46"
  shows "url_based_file_path super_file_path request (u ''3543402'') (strftime_Ymd d)
         = u ''3543402'' @ u ''/'' @ strftime_Ymd d @ u ''/'' @ name_stem base"
  using assms
  by (simp add: url_based_file_path_def Path_stem_def Path_name_full Path_three plain_strftime
      plain_designated plain_name_stem)

lemma sniffed_file_path:
  assumes "item_date item = Some d" and "item_territory_id item = Some (u ''3543402'')"
    and "content_disposition_header r = Some cd" and "pdf_filename_search cd = Some pdf_filename"
  shows "file_path sha1 super_file_path request (Some r) item
         = Inr (u ''3543402'' @ u ''/'' @ strftime_Ymd d @ u ''/'' @ hexdigest (sha1 pdf_filename), [])"
proof -
  have "cd \<noteq> []" using pdf_filename_search_Some [OF assms(4)] by auto
  moreover have "file_path_for_sp_ribeirao_preto sha1 request r item
      = Inr (u ''3543402'' @ u ''/'' @ strftime_Ymd d @ u ''/'' @ hexdigest (sha1 pdf_filename))"
    using assms
    by (simp add: file_path_for_sp_ribeirao_preto_def Path_three plain_designated plain_strftime
        plain_hexdigest)
  ultimately show ?thesis using assms by (simp add: file_path_def)
qed

text \<open>
  C5. For the designated territory, a date of a year with four digits and a response whose
  Content-Disposition header holds a well-formed \<open>filename="..."\<close> component, the path
  is the territory, the date as year, month and day in four, two and two digits, and the
  digest of the bytes between the quotes in forty hexadecimal digits. The request and the
  inherited method play no part, and another invocation with the same date and the same
  sniffed name gives the same path. The search finds a name exactly in a header with such
  a component. (For a year below 1000 the C library decides how \<open>%Y\<close> pads.)
\<close>

theorem content_sniffing_filename:
  "(item_date item = Some d \<and> mk_date (date_year d) (date_month d) (date_day d) = Inr d
      \<and> 1000 \<le> date_year d \<and> item_territory_id item = Some (u ''3543402'')
      \<and> content_disposition_header r = Some cd \<and> pdf_filename_search cd = Some pdf_filename \<longrightarrow>
      file_path sha super_file_path request (Some r) item
        = Inr (u ''3543402'' @ u ''/'' @ strftime_Ymd d @ u ''/'' @ hexdigest (sha pdf_filename), [])
      \<and> file_path sha super_file_path' request' (Some r) item
        = file_path sha super_file_path request (Some r) item
      \<and> (item_date item' = Some d \<and> item_territory_id item' = Some (u ''3543402'')
           \<and> content_disposition_header r' = Some cd' \<and> pdf_filename_search cd' = Some pdf_filename
           \<longrightarrow> file_path sha super_file_path' request' (Some r') item'
               = file_path sha super_file_path request (Some r) item)
      \<and> (\<exists>pre post. cd = pre @ (''filename='' @ [CHR 0x22] @ pdf_filename @ [CHR 0x22]) @ post)
      \<and> pdf_filename \<noteq> [] \<and> CHR 0x22 \<notin> set pdf_filename
      \<and> (\<exists>y m dd. strftime_Ymd d = y @ u ''-'' @ m @ u ''-'' @ dd
            \<and> length y = 4 \<and> length m = 2 \<and> length dd = 2
            \<and> py_int y = Inr (date_year d) \<and> py_int m = Inr (date_month d)
            \<and> py_int dd = Inr (date_day d))
      \<and> length (hexdigest (sha pdf_filename)) = 40
      \<and> (\<forall>c \<in> set (hexdigest (sha pdf_filename)).
            (48 \<le> c \<and> c \<le> 57) \<or> (97 \<le> c \<and> c \<le> 102)))
   \<and> (pdf_filename_search cd \<noteq> None \<longleftrightarrow>
        (\<exists>pre fn post. cd = pre @ (''filename='' @ [CHR 0x22] @ fn @ [CHR 0x22]) @ post
           \<and> fn \<noteq> [] \<and> CHR 0x22 \<notin> set fn))"
proof (intro conjI impI)
  assume a: "item_date item = Some d \<and> mk_date (date_year d) (date_month d) (date_day d) = Inr d
      \<and> 1000 \<le> date_year d \<and> item_territory_id item = Some (u ''3543402'')
      \<and> content_disposition_header r = Some cd \<and> pdf_filename_search cd = Some pdf_filename"
  then have p: "file_path sha sfp rq (Some r) item
        = Inr (u ''3543402'' @ u ''/'' @ strftime_Ymd d @ u ''/'' @ hexdigest (sha pdf_filename), [])"
    for sfp rq
    by (simp add: sniffed_file_path)
  show "file_path sha super_file_path request (Some r) item
        = Inr (u ''3543402'' @ u ''/'' @ strftime_Ymd d @ u ''/'' @ hexdigest (sha pdf_filename), [])"
    by (rule p)
  show "file_path sha super_file_path' request' (Some r) item
        = file_path sha super_file_path request (Some r) item"
    by (simp only: p)
  show "\<exists>pre post. cd = pre @ (''filename='' @ [CHR 0x22] @ pdf_filename @ [CHR 0x22]) @ post"
    "pdf_filename \<noteq> []" "CHR 0x22 \<notin> set pdf_filename"
    using pdf_filename_search_Some [of cd pdf_filename] a by blast+
  show "\<exists>y m dd. strftime_Ymd d = y @ u ''-'' @ m @ u ''-'' @ dd
            \<and> length y = 4 \<and> length m = 2 \<and> length dd = 2
            \<and> py_int y = Inr (date_year d) \<and> py_int m = Inr (date_month d)
            \<and> py_int dd = Inr (date_day d)"
    using a by (intro strftime_fields) blast
  show "length (hexdigest (sha pdf_filename)) = 40"
    using hexdigest_shape by blast
  show "\<forall>c \<in> set (hexdigest (sha pdf_filename)).
            (48 \<le> c \<and> c \<le> 57) \<or> (97 \<le> c \<and> c \<le> 102)"
    using hexdigest_shape by blast
  {
    assume "item_date item' = Some d \<and> item_territory_id item' = Some (u ''3543402'')
           \<and> content_disposition_header r' = Some cd' \<and> pdf_filename_search cd' = Some pdf_filename"
    then have "file_path sha super_file_path' request' (Some r') item'
        = Inr (u ''3543402'' @ u ''/'' @ strftime_Ymd d @ u ''/'' @ hexdigest (sha pdf_filename), [])"
      by (simp add: sniffed_file_path)
    then show "file_path sha super_file_path' request' (Some r') item'
               = file_path sha super_file_path request (Some r) item"
      by (simp only: p)
  }
next
  show "pdf_filename_search cd \<noteq> None \<longleftrightarrow>
        (\<exists>pre fn post. cd = pre @ (''filename='' @ [CHR 0x22] @ fn @ [CHR 0x22]) @ post
           \<and> fn \<noteq> [] \<and> CHR 0x22 \<notin> set fn)"
    by (rule pdf_filename_search_iff)
qed

text \<open>
  C6. With a date of a year with four digits, a territory identifier that is a plain path
  segment and a default path \<open>full/<base>\<close> from the inherited method, the path is always
  \<open><territory_id>/<YYYY-MM-DD>/<filename>\<close>. For another territory than the designated
  one the file name is the default base name; for the designated territory without a
  response, without the header or with a header the pattern does not match, it is the stem
  of the base name, that is, the base name without its last extension.
\<close>

theorem wrong_extension_fallback:
  "(item_date item = Some d \<and> mk_date (date_year d) (date_month d) (date_day d) = Inr d
      \<and> 1000 \<le> date_year d \<and> item_territory_id item = Some territory_id
      \<and> plain_segment territory_id \<and> super_file_path request = u ''full/'' @ base
      \<and> plain_segment base \<and> hd base \<noteq> 46 \<longrightarrow>
      (territory_id \<noteq> u ''3543402'' \<longrightarrow>
         file_path sha super_file_path request response item
           = Inr (territory_id @ u ''/'' @ strftime_Ymd d @ u ''/'' @ base, []))
      \<and> (territory_id = u ''3543402''
           \<and> (response = None
               \<or> (\<exists>r. response = Some r
                      \<and> (content_disposition_header r = None
                          \<or> (\<exists>cd. content_disposition_header r = Some cd
                                \<and> pdf_filename_search cd = None)))) \<longrightarrow>
           (\<exists>lg. file_path sha super_file_path request response item
                  = Inr (territory_id @ u ''/'' @ strftime_Ymd d @ u ''/'' @ name_stem base, lg)))
      \<and> (\<forall>path lg. file_path sha super_file_path request response item = Inr (path, lg) \<longrightarrow>
           (\<exists>filename. plain_segment filename
              \<and> path = territory_id @ u ''/'' @ strftime_Ymd d @ u ''/'' @ filename))
      \<and> (\<exists>y m dd. strftime_Ymd d = y @ u ''-'' @ m @ u ''-'' @ dd
            \<and> length y = 4 \<and> length m = 2 \<and> length dd = 2
            \<and> py_int y = Inr (date_year d) \<and> py_int m = Inr (date_month d)
            \<and> py_int dd = Inr (date_day d)))
   \<and> (stem \<noteq> [] \<and> ext \<noteq> [] \<and> 46 \<notin> set ext \<longrightarrow> name_stem (stem @ 46 # ext) = stem)
   \<and> (46 \<notin> set name \<longrightarrow> name_stem name = name)"
proof (intro conjI impI allI)
  assume a: "item_date item = Some d \<and> mk_date (date_year d) (date_month d) (date_day d) = Inr d
      \<and> 1000 \<le> date_year d \<and> item_territory_id item = Some territory_id
      \<and> plain_segment territory_id \<and> super_file_path request = u ''full/'' @ base
      \<and> plain_segment base \<and> hd base \<noteq> 46"
  show "\<exists>y m dd. strftime_Ymd d = y @ u ''-'' @ m @ u ''-'' @ dd
            \<and> length y = 4 \<and> length m = 2 \<and> length dd = 2
            \<and> py_int y = Inr (date_year d) \<and> py_int m = Inr (date_month d)
            \<and> py_int dd = Inr (date_day d)"
    using a by (intro strftime_fields) blast
  {
    assume o: "territory_id \<noteq> u ''3543402''"
    then show "file_path sha super_file_path request response item
           = Inr (territory_id @ u ''/'' @ strftime_Ymd d @ u ''/'' @ base, [])"
      using a by (cases response) (simp_all add: file_path_def url_based_other)
  }
  {
    assume f: "territory_id = u ''3543402''
           \<and> (response = None
               \<or> (\<exists>r. response = Some r
                      \<and> (content_disposition_header r = None
                          \<or> (\<exists>cd. content_disposition_header r = Some cd
                                \<and> pdf_filename_search cd = None))))"
    then show "\<exists>lg. file_path sha super_file_path request response item
                  = Inr (territory_id @ u ''/'' @ strftime_Ymd d @ u ''/'' @ name_stem base, lg)"
      using a by (auto simp: file_path_def Let_def url_based_designated)
  }
  {
    fix path lg
    assume r: "file_path sha super_file_path request response item = Inr (path, lg)"
    show "\<exists>filename. plain_segment filename
              \<and> path = territory_id @ u ''/'' @ strftime_Ymd d @ u ''/'' @ filename"
    proof (cases "territory_id = u ''3543402''")
      case False
      then have "path = territory_id @ u ''/'' @ strftime_Ymd d @ u ''/'' @ base"
        using a r by (cases response) (simp_all add: file_path_def url_based_other)
      then show ?thesis using a by blast
    next
      case True
      have fallback: "url_based_file_path super_file_path request territory_id (strftime_Ymd d)
         = territory_id @ u ''/'' @ strftime_Ymd d @ u ''/'' @ name_stem base"
        using a True by (simp add: url_based_designated)
      have stem: "plain_segment (name_stem base)" using a by (simp add: plain_name_stem)
      show ?thesis
      proof (cases "\<exists>r cd fn. response = Some r \<and> content_disposition_header r = Some cd
            \<and> pdf_filename_search cd = Some fn")
        case True
        then obtain r' cd fn where "response = Some r'" "content_disposition_header r' = Some cd"
          "pdf_filename_search cd = Some fn" by blast
        then have "path = u ''3543402'' @ u ''/'' @ strftime_Ymd d @ u ''/'' @ hexdigest (sha fn)"
          using a r \<open>territory_id = u ''3543402''\<close> sniffed_file_path [of item d r' cd fn sha]
          by simp
        then show ?thesis using \<open>territory_id = u ''3543402''\<close> plain_hexdigest by blast
      next
        case False
        then have "path = territory_id @ u ''/'' @ strftime_Ymd d @ u ''/'' @ name_stem base"
          using a r True fallback
          by (auto simp: file_path_def Let_def split: option.splits if_splits)
        then show ?thesis using stem by blast
      qed
    qed
  }
next
  assume "stem \<noteq> [] \<and> ext \<noteq> [] \<and> 46 \<notin> set ext"
  then show "name_stem (stem @ 46 # ext) = stem" by (simp add: name_stem_extension)
next
  assume "46 \<notin> set name"
  then show "name_stem name = name" by (rule name_stem_no_extension)
qed

text \<open>The example: the header of the response, the date string and the digest.\<close>

lemma hexdigest_example:
  "hexdigest (example_sha1 ''relatorio.pdf'') = u ''1debce944e4b72b72c0736bb3148e4b60259f511''"
  by (simp add: hexdigest_def example_sha1_def hex_of_numeral hex_digit_def u_def)

lemma strftime_example:
  "strftime_Ymd \<lparr>date_year = 2023, date_month = 1, date_day = 10\<rparr> = u ''2023-01-10''"
  by (simp add: strftime_Ymd_def zpad_numeral digit_char_def u_def)

lemma search_example_header: "pdf_filename_search example_header = Some ''relatorio.pdf''"
  by (simp add: pdf_filename_search_def SP_RIBEIRAO_PRETO_PDF_FILENAME_def
      example_header_def once_def plus_def greatest_def give_back.simps)

lemma search_bare_header: "pdf_filename_search bare_header = Some ''relatorio.pdf''"
  by (simp add: pdf_filename_search_def SP_RIBEIRAO_PRETO_PDF_FILENAME_def
      bare_header_def once_def plus_def greatest_def give_back.simps)

lemma search_unnamed: "pdf_filename_search ''attachment'' = None"
  by (simp add: pdf_filename_search_def SP_RIBEIRAO_PRETO_PDF_FILENAME_def
      once_def plus_def greatest_def give_back.simps)


lemma example_date: "mk_date 2023 1 10 = Inr \<lparr>date_year = 2023, date_month = 1, date_day = 10\<rparr>"
  by (simp add: mk_date_def days_in_month_def)

theorem content_sniffing_filename_witness:
  "pdf_filename_search example_header = Some ''relatorio.pdf''
   \<and> file_path example_sha1 example_super_file_path example_request (Some example_response)
        ribeirao_item
       = Inr (u ''3543402/2023-01-10/1debce944e4b72b72c0736bb3148e4b60259f511'', [])
   \<and> file_path example_sha1 example_super_file_path other_request (Some bare_response)
        ribeirao_item
       = file_path example_sha1 example_super_file_path example_request (Some example_response)
           ribeirao_item"
proof -
  note t = content_sniffing_filename [where item = ribeirao_item
      and d = "\<lparr>date_year = 2023, date_month = 1, date_day = 10\<rparr>"
      and r = example_response and cd = example_header and pdf_filename = "''relatorio.pdf''"
      and sha = example_sha1 and super_file_path = example_super_file_path
      and request = example_request and super_file_path' = example_super_file_path
      and request' = other_request and item' = ribeirao_item and r' = bare_response
      and cd' = bare_header]
  have h: "item_date ribeirao_item = Some \<lparr>date_year = 2023, date_month = 1, date_day = 10\<rparr>"
    "item_territory_id ribeirao_item = Some (u ''3543402'')"
    "content_disposition_header example_response = Some example_header"
    "content_disposition_header bare_response = Some bare_header"
    by (simp_all add: ribeirao_item_def example_response_def bare_response_def)
  have path: "u ''3543402'' @ u ''/'' @ u ''2023-01-10'' @ u ''/''
        @ u ''1debce944e4b72b72c0736bb3148e4b60259f511''
      = u ''3543402/2023-01-10/1debce944e4b72b72c0736bb3148e4b60259f511''"
    by (simp add: u_def)
  have a: "file_path example_sha1 example_super_file_path example_request (Some example_response)
        ribeirao_item
       = Inr (u ''3543402/2023-01-10/1debce944e4b72b72c0736bb3148e4b60259f511'', [])"
    using t h example_date search_example_header
    by (simp add: strftime_example hexdigest_example path)
  have b: "file_path example_sha1 example_super_file_path other_request (Some bare_response)
        ribeirao_item
       = file_path example_sha1 example_super_file_path example_request (Some example_response)
           ribeirao_item"
    using t h example_date search_example_header search_bare_header by simp
  show ?thesis using search_example_header a b by (intro conjI)
qed

theorem wrong_extension_fallback_witness:
  "file_path example_sha1 example_super_file_path example_request None parana_item
     = Inr (u ''1100122/2023-01-10/0a1b2c3d.xhtml'', [])
   \<and> (\<exists>lg. file_path example_sha1 example_super_file_path example_request
              (Some unnamed_response) ribeirao_item
            = Inr (u ''3543402/2023-01-10/0a1b2c3d'', lg))
   \<and> name_stem (u ''0a1b2c3d.xhtml'') = u ''0a1b2c3d''"
proof -
  have base: "example_super_file_path example_request = u ''full/'' @ u ''0a1b2c3d.xhtml''"
    "plain_segment (u ''0a1b2c3d.xhtml'')" "hd (u ''0a1b2c3d.xhtml'') \<noteq> 46"
    "plain_segment (u ''1100122'')" "plain_segment (u ''3543402'')"
    "u ''1100122'' \<noteq> u ''3543402''"
    by (simp_all add: example_super_file_path_def plain_segment_def u_def)
  have stem: "name_stem (u ''0a1b2c3d.xhtml'') = u ''0a1b2c3d''"
    using wrong_extension_fallback [where stem = "u ''0a1b2c3d''" and ext = "u ''xhtml''"]
    by (simp add: u_def)
  have h: "item_date parana_item = Some \<lparr>date_year = 2023, date_month = 1, date_day = 10\<rparr>"
    "item_territory_id parana_item = Some (u ''1100122'')"
    "item_date ribeirao_item = Some \<lparr>date_year = 2023, date_month = 1, date_day = 10\<rparr>"
    "item_territory_id ribeirao_item = Some (u ''3543402'')"
    "content_disposition_header unnamed_response = Some ''attachment''"
    by (simp_all add: parana_item_def ribeirao_item_def unnamed_response_def)
  have p1: "u ''1100122'' @ u ''/'' @ u ''2023-01-10'' @ u ''/'' @ u ''0a1b2c3d.xhtml''
      = u ''1100122/2023-01-10/0a1b2c3d.xhtml''"
    and p2: "u ''3543402'' @ u ''/'' @ u ''2023-01-10'' @ u ''/'' @ u ''0a1b2c3d''
      = u ''3543402/2023-01-10/0a1b2c3d''"
    by (simp_all add: u_def)
  have a: "file_path example_sha1 example_super_file_path example_request None parana_item
     = Inr (u ''1100122/2023-01-10/0a1b2c3d.xhtml'', [])"
    using wrong_extension_fallback [where item = parana_item
      and d = "\<lparr>date_year = 2023, date_month = 1, date_day = 10\<rparr>"
      and territory_id = "u ''1100122''" and super_file_path = example_super_file_path
      and request = example_request and base = "u ''0a1b2c3d.xhtml''" and sha = example_sha1
      and response = None] h base example_date
    by (simp add: strftime_example p1)
  have b: "\<exists>lg. file_path example_sha1 example_super_file_path example_request
              (Some unnamed_response) ribeirao_item
            = Inr (u ''3543402/2023-01-10/0a1b2c3d'', lg)"
    using wrong_extension_fallback [where item = ribeirao_item
      and d = "\<lparr>date_year = 2023, date_month = 1, date_day = 10\<rparr>"
      and territory_id = "u ''3543402''" and super_file_path = example_super_file_path
      and request = example_request and base = "u ''0a1b2c3d.xhtml''" and sha = example_sha1
      and response = "Some unnamed_response"] h base example_date search_unnamed
    by (simp add: strftime_example p2 stem)
  show ?thesis using a b stem by (intro conjI)
qed

section \<open>The year check on an entry that is no calendar date\<close>

text \<open>The example entries pass the predicate of the page's query for 2023.\<close>

lemma str_int_2023: "str_int 2023 = u ''2023''"
  by (simp add: str_int_def digit_char_def u_def)

lemma xpath_selects_invalid_date: "xpath_selects 2023 node_invalid_date"
  by (simp add: xpath_selects_def str_int_2023 node_invalid_date_def u_def)

lemma xpath_selects_regular: "xpath_selects 2023 node_regular"
  by (simp add: xpath_selects_def str_int_2023 node_regular_def u_def)

lemma xpath_selects_supplement: "xpath_selects 2023 node_supplement"
  by (simp add: xpath_selects_def str_int_2023 node_supplement_def u_def)

lemma xpath_selects_previous_year: "xpath_selects 2023 node_previous_year"
  by (simp add: xpath_selects_def str_int_2023 node_previous_year_def u_def)

lemma split_search_invalid_date:
  "split_gazette_text_search (strip (node_text node_invalid_date))
     = Some (u ''3929'', [], u ''2022'', u ''02'', u ''30'')"
  by (simp add: regex_eval node_invalid_date_def)

lemma embedded_date_invalid_date: "embedded_date node_invalid_date = Some (Inl ValueError)"
  by (simp add: embedded_date_def split_search_invalid_date py_int_def u_def is_digit_def
      mk_date_def days_in_month_def is_leap_def)

lemma parse_node_invalid_date:
  "parse_node sd ed uj year st node_invalid_date = Inl ValueError"
  by (simp add: parse_node_cases embedded_date_invalid_date)

lemma parse_node_supplement_second:
  "parse_node example_start_date example_end_date example_urljoin 2023
     ([((\<lparr>date_year = 2023, date_month = 1, date_day = 10\<rparr>, u ''3930'', False),
              [([], {|u ''https://diariooficialjp.com.br/pdf/2023-01-10.pdf''|})])], lg)
     node_supplement
   = Inr ([((\<lparr>date_year = 2023, date_month = 1, date_day = 10\<rparr>, u ''3930'', False),
              [([], {|u ''https://diariooficialjp.com.br/pdf/2023-01-10.pdf''|})]),
           ((\<lparr>date_year = 2023, date_month = 1, date_day = 10\<rparr>, u ''3930'', True),
              [(u ''SUPLEMENTO'', {|u ''https://diariooficialjp.com.br/pdf/2023-01-10-b.pdf''|})])], lg)"
  by (simp add: parse_node_cases embedded_date_supplement node_supplement_fields url_supplement
      extra_text_supplement no_extra_url_supplement example_start_date_def example_end_date_def
      date_le_def date_less_def validate_uniqueness_def Let_def endswith_def)

lemma yield_regular_supplement:
  "yield_gazettes
     [((\<lparr>date_year = 2023, date_month = 1, date_day = 10\<rparr>, u ''3930'', False),
              [([], {|u ''https://diariooficialjp.com.br/pdf/2023-01-10.pdf''|})]),
           ((\<lparr>date_year = 2023, date_month = 1, date_day = 10\<rparr>, u ''3930'', True),
              [(u ''SUPLEMENTO'', {|u ''https://diariooficialjp.com.br/pdf/2023-01-10-b.pdf''|})])] lg
   = ([gazette_3930, gazette_3930_supplement], lg, None)"
  by (simp add: gazette_3930_def gazette_3930_supplement_def fcard_finsert_if)

text \<open>
  C7. The claim is that an entry whose embedded date has another year than the queried one
  is skipped and the page goes on. It is so when the digit groups are a day of the calendar
  (\<open>wrong_year_skipped\<close>). When they are not, as in 2022-02-30, \<open>date(...)\<close> raises
  ValueError before the years are compared: on the page of 2023 below, whose three entries
  the page's query all selects, the entry of 2022 ends the call and nothing is yielded,
  while the same page without that entry, or with 2022-12-30 in its place, yields both
  editions of 2023-01-10.
\<close>

theorem year_boundary_invalid_date:
  "xpath_selects 2023 node_regular \<and> xpath_selects 2023 node_invalid_date
   \<and> xpath_selects 2023 node_supplement
   \<and> split_gazette_text_search (strip (node_text node_invalid_date))
       = Some (u ''3929'', [], u ''2022'', u ''02'', u ''30'')
   \<and> embedded_date node_invalid_date = Some (Inl ValueError)
   \<and> parse_year_post_2013_split example_start_date example_end_date example_urljoin
        [node_regular, node_invalid_date, node_supplement] 2023
       = ([], [], Some ValueError)
   \<and> parse_year_post_2013_split example_start_date example_end_date example_urljoin
        [node_regular, node_supplement] 2023
       = ([gazette_3930, gazette_3930_supplement], [], None)
   \<and> parse_year_post_2013_split example_start_date example_end_date example_urljoin
        [node_regular, node_previous_year, node_supplement] 2023
       = ([gazette_3930, gazette_3930_supplement],
          [WarningWrongYear \<lparr>date_year = 2022, date_month = 12, date_day = 30\<rparr> 2023], None)"
proof (intro conjI)
  show "xpath_selects 2023 node_regular" by (rule xpath_selects_regular)
  show "xpath_selects 2023 node_invalid_date" by (rule xpath_selects_invalid_date)
  show "xpath_selects 2023 node_supplement" by (rule xpath_selects_supplement)
  show "split_gazette_text_search (strip (node_text node_invalid_date))
       = Some (u ''3929'', [], u ''2022'', u ''02'', u ''30'')"
    by (rule split_search_invalid_date)
  show "embedded_date node_invalid_date = Some (Inl ValueError)"
    by (rule embedded_date_invalid_date)
  have "parse_nodes example_start_date example_end_date example_urljoin 2023 ([], [])
          [node_regular, node_invalid_date, node_supplement]
        = (([((\<lparr>date_year = 2023, date_month = 1, date_day = 10\<rparr>, u ''3930'', False),
              [([], {|u ''https://diariooficialjp.com.br/pdf/2023-01-10.pdf''|})])], []),
           Some ValueError)"
    by (simp add: parse_node_regular parse_node_invalid_date)
  then show "parse_year_post_2013_split example_start_date example_end_date example_urljoin
        [node_regular, node_invalid_date, node_supplement] 2023
       = ([], [], Some ValueError)"
    by (simp only: parse_year_post_2013_split_def prod.case option.case)
  have "parse_nodes example_start_date example_end_date example_urljoin 2023 ([], [])
          [node_regular, node_supplement]
        = (([((\<lparr>date_year = 2023, date_month = 1, date_day = 10\<rparr>, u ''3930'', False),
              [([], {|u ''https://diariooficialjp.com.br/pdf/2023-01-10.pdf''|})]),
           ((\<lparr>date_year = 2023, date_month = 1, date_day = 10\<rparr>, u ''3930'', True),
              [(u ''SUPLEMENTO'', {|u ''https://diariooficialjp.com.br/pdf/2023-01-10-b.pdf''|})])],
            []), None)"
    by (simp add: parse_node_regular parse_node_supplement_second)
  then show "parse_year_post_2013_split example_start_date example_end_date example_urljoin
        [node_regular, node_supplement] 2023
       = ([gazette_3930, gazette_3930_supplement], [], None)"
    by (simp only: parse_year_post_2013_split_def prod.case option.case yield_regular_supplement)
  have "parse_nodes example_start_date example_end_date example_urljoin 2023 ([], [])
          [node_regular, node_previous_year, node_supplement]
        = (([((\<lparr>date_year = 2023, date_month = 1, date_day = 10\<rparr>, u ''3930'', False),
              [([], {|u ''https://diariooficialjp.com.br/pdf/2023-01-10.pdf''|})]),
           ((\<lparr>date_year = 2023, date_month = 1, date_day = 10\<rparr>, u ''3930'', True),
              [(u ''SUPLEMENTO'', {|u ''https://diariooficialjp.com.br/pdf/2023-01-10-b.pdf''|})])],
            [WarningWrongYear \<lparr>date_year = 2022, date_month = 12, date_day = 30\<rparr> 2023]), None)"
    by (simp add: parse_node_regular parse_node_supplement_second
        parse_node_wrong_year [OF embedded_date_previous_year])
  then show "parse_year_post_2013_split example_start_date example_end_date example_urljoin
        [node_regular, node_previous_year, node_supplement] 2023
       = ([gazette_3930, gazette_3930_supplement],
          [WarningWrongYear \<lparr>date_year = 2022, date_month = 12, date_day = 30\<rparr> 2023], None)"
    by (simp only: parse_year_post_2013_split_def prod.case option.case yield_regular_supplement)
qed

end
